theory Spec2Isabelle
  imports Main
begin

section \<open>JavaScript values and strings\<close>

text \<open>
  A JavaScript string is a sequence of UTF-16 code units; a code unit is modelled by its
  number. \<open>js\<close> writes an ASCII literal as such a sequence.

  The values the corpus code inspects are the primitives it tests for
  (\<open>undefined\<close>, \<open>null\<close>, booleans, strings), arrays, and references to objects of
  the store below. Numbers and functions are not part of this universe.
\<close>

type_synonym jsstring = "nat list"

type_synonym ref = nat

definition js :: "string \<Rightarrow> jsstring" where
  "js s = map of_char s"

datatype jsval =
    Undefined
  | Null
  | Bool bool
  | Str jsstring
  | Arr "jsval list"
  | Obj ref

text \<open>
  The two error classes the source throws: \<open>TypeError\<close> (the spec's
  \<open>InvalidArgument\<close>) and the plain \<open>Error\<close> of \<open>setAttributes\<close> (the spec's
  \<open>LengthMismatch\<close>). \<open>SyntaxError\<close> is what the \<open>RegExp\<close> constructor throws
  on a malformed pattern.
\<close>

datatype error = TypeError | Error | SyntaxError

text \<open>
  What the host engine supplies and this theory does not interpret: the Unicode upper
  case of a single code unit from 128 on (used by case-insensitive matching), the lower
  case of a string that is not pure ASCII, and the regular expression built from a word
  that contains a pattern syntax character other than \<open>|\<close>: construction either
  throws or gives the function that \<open>text.replace( myRegExp, '' )\<close> computes.
\<close>

record host =
  upper_cu :: "nat \<Rightarrow> nat"
  lower_str :: "jsstring \<Rightarrow> jsstring"
  host_RegExp :: "jsstring \<Rightarrow> bool \<Rightarrow> error + (jsstring \<Rightarrow> jsstring)"

subsection \<open>Conversion to string\<close>

fun join_comma :: "jsstring list \<Rightarrow> jsstring" where
  "join_comma [] = []"
| "join_comma [x] = x"
| "join_comma (x # y # ys) = x @ 44 # join_comma (y # ys)"

text \<open>
  \<open>ToString\<close> of the language, as a template literal applies it to \<open>words[i]\<close>;
  an array is joined with commas, its \<open>undefined\<close> and \<open>null\<close> elements reading
  as the empty string; an object prints as \<open>[object Object]\<close>.
\<close>

fun ToString :: "jsval \<Rightarrow> jsstring" where
  "ToString Undefined = js ''undefined''"
| "ToString Null = js ''null''"
| "ToString (Bool b) = (if b then js ''true'' else js ''false'')"
| "ToString (Str t) = t"
| "ToString (Arr xs) =
     join_comma (map (\<lambda>x. if x = Undefined \<or> x = Null then [] else ToString x) xs)"
| "ToString (Obj r) = js ''[object Object]''"

text \<open>\<open>makeString\<close> of underscore.string: \<open>if (object == null) return ''; return '' + object\<close>.\<close>

definition makeString :: "jsval \<Rightarrow> jsstring" where
  "makeString v = (if v = Undefined \<or> v = Null then [] else ToString v)"

subsection \<open>White space, trimming and cleaning\<close>

text \<open>
  The code units that \<open>\\s\<close> matches and that \<open>String.prototype.trim\<close> strips:
  the white space and line terminator characters of the language.
\<close>

definition whitespace :: "nat list" where
  "whitespace =
     [9, 10, 11, 12, 13, 32, 160, 5760,
      8192, 8193, 8194, 8195, 8196, 8197, 8198, 8199, 8200, 8201, 8202,
      8232, 8233, 8239, 8287, 12288, 65279]"

definition is_space :: "nat \<Rightarrow> bool" where
  "is_space c = (c \<in> set whitespace)"

text \<open>
  \<open>_.trim( text )\<close> of underscore.string with no character argument is the native
  \<open>trim\<close> of the string made from its argument.
\<close>

definition str_trim :: "jsstring \<Rightarrow> jsstring" where
  "str_trim t = rev (dropWhile is_space (rev (dropWhile is_space t)))"

text \<open>
  \<open>_.clean( text )\<close> of underscore.string (version 3) is
  \<open>trim(str).replace(/\\s\\s+/g, ' ')\<close>: after trimming, every maximal run of two or
  more white space characters becomes one space. \<open>collapse\<close> is that global
  replacement.
\<close>

function collapse :: "jsstring \<Rightarrow> jsstring" where
  "collapse [] = []"
| "collapse [c] = [c]"
| "collapse (c # d # cs) =
     (if is_space c \<and> is_space d then 32 # collapse (dropWhile is_space cs)
      else c # collapse (d # cs))"
  by pat_completeness auto
termination
  apply (relation "measure length")
    apply simp
   apply (simp add: length_dropWhile_le le_imp_less_Suc less_SucI)
  apply simp
  done

definition str_clean :: "jsstring \<Rightarrow> jsstring" where
  "str_clean t = collapse (str_trim t)"

subsection \<open>Case conversion\<close>

definition ascii_lower :: "nat \<Rightarrow> nat" where
  "ascii_lower c = (if 65 \<le> c \<and> c \<le> 90 then c + 32 else c)"

definition ascii_upper :: "nat \<Rightarrow> nat" where
  "ascii_upper c = (if 97 \<le> c \<and> c \<le> 122 then c - 32 else c)"

text \<open>\<open>text.toLowerCase()\<close>: on a pure ASCII string the letters A to Z are lowered.\<close>

definition toLowerCase :: "host \<Rightarrow> jsstring \<Rightarrow> jsstring" where
  "toLowerCase H t = (if list_all (\<lambda>c. c < 128) t then map ascii_lower t else lower_str H t)"

text \<open>
  \<open>Canonicalize\<close> of the regular expression semantics (ignore-case, no unicode flag):
  the upper case of the code unit, unless that would turn a non-ASCII unit into an ASCII
  one.
\<close>

definition Canonicalize :: "host \<Rightarrow> nat \<Rightarrow> nat" where
  "Canonicalize H c =
     (if c < 128 then ascii_upper c
      else if upper_cu H c < 128 then c else upper_cu H c)"

subsection \<open>The regular expressions of the source\<close>

text \<open>\<open>text.replace( /[\\!\\?\\.,;-]/g, ' ' )\<close> of \<open>removeInterpunctuation\<close>.\<close>

definition interpunctuation :: "nat list" where
  "interpunctuation = [33, 63, 46, 44, 59, 45]"

definition replace_interpunctuation :: "jsstring \<Rightarrow> jsstring" where
  "replace_interpunctuation t = map (\<lambda>c. if c \<in> set interpunctuation then 32 else c) t"

text \<open>
  \<open>removeWords\<close> builds \<open>new RegExp( `[\\s\\.]+${words[i]}[\\s\\.]`, options )\<close>
  with options \<open>g\<close> or \<open>gi\<close>. The word is spliced into the pattern source as it is.
  A word none of whose characters is a pattern syntax character
  (\<open>^ $ \\ . * + ? ( ) [ ] { } |\<close>) is a sequence of pattern characters, each matching
  itself. A word whose only syntax characters are \<open>|\<close> turns the pattern into a
  disjunction: the text before the first \<open>|\<close> stays with the leading
  \<open>[\\s\\.]+\<close>, the text behind the last one with the trailing \<open>[\\s\\.]\<close>,
  and the pieces between them are alternatives of their own. This theory interprets the
  pattern for these two kinds of words and leaves the others to the host.
\<close>

definition syntax_chars :: "nat list" where
  "syntax_chars = [94, 36, 92, 46, 42, 43, 63, 40, 41, 91, 93, 123, 125, 124]"

definition plain_word :: "jsstring \<Rightarrow> bool" where
  "plain_word w = list_all (\<lambda>c. c \<notin> set syntax_chars) w"

text \<open>
  The class \<open>[\\s\\.]\<close>. Under the \<open>i\<close> flag a character is in a class when its
  canonical form is that of a member.
\<close>

definition delim :: "host \<Rightarrow> bool \<Rightarrow> nat \<Rightarrow> bool" where
  "delim H ci c =
     (if ci then list_ex (\<lambda>a. Canonicalize H a = Canonicalize H c) (whitespace @ [46])
      else is_space c \<or> c = 46)"

definition char_eq :: "host \<Rightarrow> bool \<Rightarrow> nat \<Rightarrow> nat \<Rightarrow> bool" where
  "char_eq H ci a c = (if ci then Canonicalize H a = Canonicalize H c else a = c)"

text \<open>The rest of the pattern after the \<open>+\<close>: the word, then one character of the class.\<close>

fun match_word :: "host \<Rightarrow> bool \<Rightarrow> jsstring \<Rightarrow> jsstring \<Rightarrow> bool" where
  "match_word H ci [] t = (case t of [] \<Rightarrow> False | c # _ \<Rightarrow> delim H ci c)"
| "match_word H ci (a # w) t =
     (case t of [] \<Rightarrow> False | c # t' \<Rightarrow> char_eq H ci a c \<and> match_word H ci w t')"

text \<open>
  The greedy \<open>+\<close>: it first takes the whole run of class characters and gives them back
  one at a time, down to one, until the rest of the pattern matches. The result is the
  length of the match.
\<close>

fun backtrack :: "host \<Rightarrow> bool \<Rightarrow> jsstring \<Rightarrow> nat \<Rightarrow> jsstring \<Rightarrow> nat option" where
  "backtrack H ci w 0 t = None"
| "backtrack H ci w (Suc j) t =
     (if match_word H ci w (drop (Suc j) t) then Some (Suc j + length w + 1)
      else backtrack H ci w j t)"

definition match_at :: "host \<Rightarrow> bool \<Rightarrow> jsstring \<Rightarrow> jsstring \<Rightarrow> nat option" where
  "match_at H ci w t = backtrack H ci w (length (takeWhile (delim H ci) t)) t"

text \<open>
  \<open>text.replace( myRegExp, '' )\<close> with the global flag: the text is scanned from the
  left; where the pattern matches, the match is dropped and the scan goes on behind it,
  elsewhere the character is kept.
\<close>

function replace_all :: "host \<Rightarrow> bool \<Rightarrow> jsstring \<Rightarrow> jsstring \<Rightarrow> jsstring" where
  "replace_all H ci w [] = []"
| "replace_all H ci w (c # cs) =
     (case match_at H ci w (c # cs) of
        Some m \<Rightarrow> replace_all H ci w (drop m (c # cs))
      | None \<Rightarrow> c # replace_all H ci w cs)"
  by pat_completeness auto
termination
proof (relation "measure (\<lambda>(H, ci, w, t). length t)")
  show "wf (measure (\<lambda>(H, ci, w, t). length t))" by simp
next
  fix H :: host and ci w c cs m
  assume m: "match_at H ci w (c # cs) = Some m"
  have "backtrack H ci w j (c # cs) = Some m \<Longrightarrow> 0 < m" for j
    by (induction j) (auto split: if_splits)
  with m have "0 < m" by (simp add: match_at_def)
  then show "((H, ci, w, drop m (c # cs)), H, ci, w, c # cs) \<in> measure (\<lambda>(H, ci, w, t). length t)"
    by simp
next
  fix H :: host and ci w c cs
  show "((H, ci, w, cs), H, ci, w, c # cs) \<in> measure (\<lambda>(H, ci, w, t). length t)"
    by simp
qed

text \<open>
  A word with \<open>|\<close>: the pieces between the bars, in order. The pattern
  \<open>[\\s\\.]+a|b|c[\\s\\.]\<close> has the alternatives \<open>[\\s\\.]+a\<close>, \<open>b\<close> and
  \<open>c[\\s\\.]\<close>; a piece may be empty.
\<close>

definition bar_word :: "jsstring \<Rightarrow> bool" where
  "bar_word w = list_all (\<lambda>c. c = 124 \<or> c \<notin> set syntax_chars) w"

fun split_bar :: "jsstring \<Rightarrow> jsstring list" where
  "split_bar [] = [[]]"
| "split_bar (c # cs) =
     (if c = 124 then [] # split_bar cs
      else (case split_bar cs of [] \<Rightarrow> [[c]] | p # ps \<Rightarrow> (c # p) # ps))"

text \<open>A sequence of pattern characters at the head of the text.\<close>

fun match_chars :: "host \<Rightarrow> bool \<Rightarrow> jsstring \<Rightarrow> jsstring \<Rightarrow> bool" where
  "match_chars H ci [] t = True"
| "match_chars H ci (a # w) t =
     (case t of [] \<Rightarrow> False | c # t' \<Rightarrow> char_eq H ci a c \<and> match_chars H ci w t')"

text \<open>
  The first alternative, \<open>[\\s\\.]+\<close> and the first piece: the greedy \<open>+\<close> as
  above, without a character of the class behind the piece.
\<close>

fun backtrack_first :: "host \<Rightarrow> bool \<Rightarrow> jsstring \<Rightarrow> nat \<Rightarrow> jsstring \<Rightarrow> nat option" where
  "backtrack_first H ci w 0 t = None"
| "backtrack_first H ci w (Suc j) t =
     (if match_chars H ci w (drop (Suc j) t) then Some (Suc j + length w)
      else backtrack_first H ci w j t)"

text \<open>
  The alternatives behind the first, tried from left to right: a piece between two bars
  matches as it is, the last piece wants one character of the class behind it.
\<close>

fun match_rest :: "host \<Rightarrow> bool \<Rightarrow> jsstring list \<Rightarrow> jsstring \<Rightarrow> nat option" where
  "match_rest H ci [] t = None"
| "match_rest H ci [a] t = (if match_word H ci a t then Some (length a + 1) else None)"
| "match_rest H ci (a # b # as) t =
     (if match_chars H ci a t then Some (length a) else match_rest H ci (b # as) t)"

text \<open>
  The disjunction at the head of the text: the first alternative that matches decides,
  and the result is the length of its match.
\<close>

definition match_alts :: "host \<Rightarrow> bool \<Rightarrow> jsstring list \<Rightarrow> jsstring \<Rightarrow> nat option" where
  "match_alts H ci alts t =
     (case alts of
        [] \<Rightarrow> None
      | a # rest \<Rightarrow>
          (case backtrack_first H ci a (length (takeWhile (delim H ci) t)) t of
             Some m \<Rightarrow> Some m
           | None \<Rightarrow> match_rest H ci rest t))"

text \<open>
  The global replacement for a disjunction. An empty piece between two bars matches the
  empty string: nothing is dropped there and the scan goes on one character further.
\<close>

function replace_alts :: "host \<Rightarrow> bool \<Rightarrow> jsstring list \<Rightarrow> jsstring \<Rightarrow> jsstring" where
  "replace_alts H ci alts [] = []"
| "replace_alts H ci alts (c # cs) =
     (case match_alts H ci alts (c # cs) of
        Some m \<Rightarrow>
          (if m = 0 then c # replace_alts H ci alts cs
           else replace_alts H ci alts (drop m (c # cs)))
      | None \<Rightarrow> c # replace_alts H ci alts cs)"
  by pat_completeness auto
termination
  by (relation "measure (\<lambda>(H, ci, alts, t). length t)") auto

text \<open>
  \<open>new RegExp( ... )\<close> for a word, as the function its global replacement by the empty
  string computes, or the error of the construction.
\<close>

definition RegExp :: "host \<Rightarrow> jsstring \<Rightarrow> bool \<Rightarrow> error + (jsstring \<Rightarrow> jsstring)" where
  "RegExp H w ci =
     (if plain_word w then Inr (replace_all H ci w)
      else if bar_word w then Inr (replace_alts H ci (split_bar w))
      else host_RegExp H w ci)"

section \<open>Objects, documents and corpora\<close>

text \<open>
  Documents are objects with identity, shared between corpora, so they live in a store:
  a reference is an index into \<open>heap\<close>, and allocation appends. Of an object the code
  only ever looks at its own properties \<open>text\<close> and \<open>attributes\<close>; each is present
  or absent. A document's text is a string (the spec's data model), its attributes are
  any value. A \<open>Corpus\<close> instance is an address in \<open>corpora\<close>, which holds its
  \<open>documents\<close> array.
\<close>

record obj =
  doc_text :: "jsstring option"
  doc_attributes :: "jsval option"

record state =
  heap :: "obj list"
  corpora :: "ref list list"

definition deref :: "'a list \<Rightarrow> ref \<Rightarrow> 'a option" where
  "deref h r = (if r < length h then Some (h ! r) else None)"

definition documents :: "state \<Rightarrow> ref \<Rightarrow> ref list" where
  "documents s c = (case deref (corpora s) c of Some ds \<Rightarrow> ds | None \<Rightarrow> [])"

text \<open>The getter \<open>nDocs\<close>: \<open>return this.documents.length\<close>.\<close>

definition nDocs :: "state \<Rightarrow> ref \<Rightarrow> nat" where
  "nDocs s c = length (documents s c)"

text \<open>Reading \<open>doc.text\<close> and \<open>doc.attributes\<close>: an absent property reads \<open>undefined\<close>.\<close>

definition get_text :: "obj list \<Rightarrow> ref \<Rightarrow> jsval" where
  "get_text h d =
     (case deref h d of
        Some ob \<Rightarrow> (case doc_text ob of Some t \<Rightarrow> Str t | None \<Rightarrow> Undefined)
      | None \<Rightarrow> Undefined)"

definition get_attributes :: "obj list \<Rightarrow> ref \<Rightarrow> jsval" where
  "get_attributes h d =
     (case deref h d of
        Some ob \<Rightarrow> (case doc_attributes ob of Some a \<Rightarrow> a | None \<Rightarrow> Undefined)
      | None \<Rightarrow> Undefined)"

text \<open>The assignments \<open>doc.text = ...\<close> and \<open>doc.attributes = ...\<close>.\<close>

definition set_text :: "obj list \<Rightarrow> ref \<Rightarrow> jsstring \<Rightarrow> obj list" where
  "set_text h d t = (if d < length h then h[d := (h ! d)\<lparr>doc_text := Some t\<rparr>] else h)"

definition set_attributes :: "obj list \<Rightarrow> ref \<Rightarrow> jsval \<Rightarrow> obj list" where
  "set_attributes h d a =
     (if d < length h then h[d := (h ! d)\<lparr>doc_attributes := Some a\<rparr>] else h)"

subsection \<open>The validators\<close>

text \<open>
  The validate.io predicates the source imports, as their packages document them.
  \<open>isString\<close> (validate.io-string-primitive) and \<open>isBoolean\<close>
  (validate.io-boolean-primitive) are \<open>typeof\<close> tests. \<open>isObject\<close>
  (validate.io-object) holds of an object that is neither \<open>null\<close> nor an array.
  \<open>isArray\<close> is validate.io-array-like: a value with a valid \<open>length\<close> that is
  no function, so arrays and strings are array-like (with no numbers in the universe, no
  object has a valid \<open>length\<close>); \<open>elems\<close> reads the elements \<open>val[ i ]\<close> of an
  array-like value. \<open>isStringArray\<close> (validate.io-string-array) and
  \<open>isObjectArray\<close> (validate.io-object-array) hold of an array all of whose elements
  pass the test; both packages return \<open>false\<close> for an empty array.
\<close>

definition isString :: "jsval \<Rightarrow> bool" where
  "isString v = (case v of Str _ \<Rightarrow> True | _ \<Rightarrow> False)"

definition isBoolean :: "jsval \<Rightarrow> bool" where
  "isBoolean v = (case v of Bool _ \<Rightarrow> True | _ \<Rightarrow> False)"

definition isObject :: "jsval \<Rightarrow> bool" where
  "isObject v = (case v of Obj _ \<Rightarrow> True | _ \<Rightarrow> False)"

definition isArray :: "jsval \<Rightarrow> bool" where
  "isArray v = (case v of Arr _ \<Rightarrow> True | Str _ \<Rightarrow> True | _ \<Rightarrow> False)"

definition elems :: "jsval \<Rightarrow> jsval list" where
  "elems v = (case v of Arr xs \<Rightarrow> xs | Str t \<Rightarrow> map (\<lambda>c. Str [c]) t | _ \<Rightarrow> [])"

definition isStringArray :: "jsval \<Rightarrow> bool" where
  "isStringArray v = (case v of Arr xs \<Rightarrow> xs \<noteq> [] \<and> list_all isString xs | _ \<Rightarrow> False)"

definition isObjectArray :: "jsval \<Rightarrow> bool" where
  "isObjectArray v = (case v of Arr xs \<Rightarrow> xs \<noteq> [] \<and> list_all isObject xs | _ \<Rightarrow> False)"

text \<open>The string of a value known to be a string, the address of one known to be an object.\<close>

definition str_of :: "jsval \<Rightarrow> jsstring" where
  "str_of v = (case v of Str t \<Rightarrow> t | _ \<Rightarrow> [])"

definition ref_of :: "jsval \<Rightarrow> ref" where
  "ref_of v = (case v of Obj r \<Rightarrow> r | _ \<Rightarrow> 0)"

text \<open>
  \<open>isDoc\<close>: \<open>isObject( val ) && val.hasOwnProperty( 'text' ) &&
  val.hasOwnProperty( 'attributes' )\<close>.
\<close>

definition isDoc :: "state \<Rightarrow> jsval \<Rightarrow> bool" where
  "isDoc s val =
     (isObject val \<and>
      (case deref (heap s) (ref_of val) of
         Some ob \<Rightarrow> doc_text ob \<noteq> None \<and> doc_attributes ob \<noteq> None
       | None \<Rightarrow> False))"

text \<open>\<open>isDocArray\<close>: an array-like value all of whose elements pass \<open>isDoc\<close>.\<close>

definition isDocArray :: "state \<Rightarrow> jsval \<Rightarrow> bool" where
  "isDocArray s val = (isArray val \<and> list_all (isDoc s) (elems val))"

subsection \<open>The Document constructor\<close>

text \<open>
  Modelled from the spec: the constructor of \<open>document.js\<close>, which is not among the
  sources. The spec gives a Document as a record of a \<open>text\<close> string and an
  \<open>attributes\<close> mapping with an identity of its own, and \<open>new Doc( val )\<close> as one
  Document wrapping the string. The model allocates a new attributes object and a new
  document holding the string and that object.
\<close>

definition Doc :: "jsstring \<Rightarrow> state \<Rightarrow> ref \<times> state" where
  "Doc t s =
     (let a = length (heap s) in
      (Suc a,
       s\<lparr>heap := heap s @
            [\<lparr>doc_text = None, doc_attributes = None\<rparr>,
             \<lparr>doc_text = Some t, doc_attributes = Some (Obj a)\<rparr>]\<rparr>))"

text \<open>The loop \<open>for ( i = 0; i < len; i++ ) arr[ i ] = new Doc( val[ i ] )\<close>.\<close>

fun Docs :: "jsval list \<Rightarrow> state \<Rightarrow> ref list \<times> state" where
  "Docs [] s = ([], s)"
| "Docs (v # vs) s =
     (let (d, s1) = Doc (str_of v) s; (ds, s2) = Docs vs s1 in (d # ds, s2))"

subsection \<open>Construction and the mutation API\<close>

text \<open>
  \<open>init\<close> computes the \<open>documents\<close> array of the new corpus by the chain of tests
  of the source, in its order. An adopted array is kept as the sequence of its
  documents.
\<close>

definition init :: "jsval \<Rightarrow> state \<Rightarrow> (error + ref list) \<times> state" where
  "init val s =
     (if val = Undefined then (Inr [], s)
      else if isString val then (let (d, s1) = Doc (str_of val) s in (Inr [d], s1))
      else if isStringArray val then (let (ds, s1) = Docs (elems val) s in (Inr ds, s1))
      else if isDoc s val then (Inr [ref_of val], s)
      else if isDocArray s val then (Inr (map ref_of (elems val)), s)
      else (Inl TypeError, s))"

text \<open>\<open>new Corpus( docs )\<close>: a new instance whose documents \<open>init\<close> gives.\<close>

definition Corpus :: "jsval \<Rightarrow> state \<Rightarrow> (error + ref) \<times> state" where
  "Corpus docs s =
     (case init docs s of
        (Inl e, s1) \<Rightarrow> (Inl e, s1)
      | (Inr ds, s1) \<Rightarrow> (Inr (length (corpora s1)), s1\<lparr>corpora := corpora s1 @ [ds]\<rparr>))"

text \<open>\<open>self.documents.push( d )\<close>.\<close>

definition push :: "ref \<Rightarrow> ref \<Rightarrow> state \<Rightarrow> state" where
  "push c d s = s\<lparr>corpora := (corpora s)[c := documents s c @ [d]]\<rparr>"

definition addDoc :: "ref \<Rightarrow> jsval \<Rightarrow> state \<Rightarrow> (error + unit) \<times> state" where
  "addDoc c doc s =
     (if isString doc then (let (d, s1) = Doc (str_of doc) s in (Inr (), push c d s1))
      else if isDoc s doc then (Inr (), push c (ref_of doc) s)
      else (Inl TypeError, s))"

text \<open>The loop \<open>self.documents[ i ].attributes = arr[ i ]\<close> for \<open>i\<close> below \<open>len\<close>.\<close>

fun setAttributes_loop :: "ref list \<Rightarrow> jsval list \<Rightarrow> obj list \<Rightarrow> obj list" where
  "setAttributes_loop (d # ds) (a # as) h = setAttributes_loop ds as (set_attributes h d a)"
| "setAttributes_loop _ _ h = h"

definition setAttributes :: "ref \<Rightarrow> jsval \<Rightarrow> state \<Rightarrow> (error + ref) \<times> state" where
  "setAttributes c arr s =
     (if \<not> isObjectArray arr then (Inl TypeError, s)
      else if length (elems arr) \<noteq> nDocs s c then (Inl Error, s)
      else (Inr c, s\<lparr>heap := setAttributes_loop (documents s c) (elems arr) (heap s)\<rparr>))"

section \<open>The functional pipeline\<close>

text \<open>
  A callback is called with \<open>( text, attributes, id )\<close>; it returns a string or
  throws. Callbacks are functions of their arguments: they do not touch the store.
\<close>

type_synonym callback = "jsval \<Rightarrow> jsval \<Rightarrow> nat \<Rightarrow> error + jsstring"

text \<open>
  The loop of \<open>apply\<close> over \<open>this.documents\<close>, from index \<open>i\<close> on:
  \<open>doc.text = func( doc.text, doc.attributes, i )\<close>. A throwing callback ends the loop
  and leaves the documents already processed as they are.
\<close>

fun apply_loop :: "callback \<Rightarrow> ref list \<Rightarrow> nat \<Rightarrow> obj list \<Rightarrow> error option \<times> obj list" where
  "apply_loop func [] i h = (None, h)"
| "apply_loop func (d # ds) i h =
     (case func (get_text h d) (get_attributes h d) i of
        Inl e \<Rightarrow> (Some e, h)
      | Inr t \<Rightarrow> apply_loop func ds (Suc i) (set_text h d t))"

definition apply_Corpus :: "ref \<Rightarrow> callback \<Rightarrow> state \<Rightarrow> (error + ref) \<times> state" where
  "apply_Corpus c func s =
     (case apply_loop func (documents s c) 0 (heap s) of
        (Some e, h) \<Rightarrow> (Inl e, s\<lparr>heap := h\<rparr>)
      | (None, h) \<Rightarrow> (Inr c, s\<lparr>heap := h\<rparr>))"

subsection \<open>The built-in normalizations\<close>

definition trimmer :: callback where
  "trimmer text a i = Inr (str_trim (makeString text))"

definition cleaner :: callback where
  "cleaner text a i = Inr (str_clean (makeString text))"

text \<open>A method call on a text that is not a string throws a \<open>TypeError\<close>.\<close>

definition lowerer :: "host \<Rightarrow> callback" where
  "lowerer H text a i = (case text of Str t \<Rightarrow> Inr (toLowerCase H t) | _ \<Rightarrow> Inl TypeError)"

definition remover :: callback where
  "remover text a i =
     (case text of Str t \<Rightarrow> Inr (replace_interpunctuation t) | _ \<Rightarrow> Inl TypeError)"

text \<open>Each method is \<open>this.apply( ... ); return this\<close>.\<close>

definition trim :: "ref \<Rightarrow> state \<Rightarrow> (error + ref) \<times> state" where
  "trim c s =
     (case apply_Corpus c trimmer s of (Inl e, s1) \<Rightarrow> (Inl e, s1) | (Inr _, s1) \<Rightarrow> (Inr c, s1))"

definition clean :: "ref \<Rightarrow> state \<Rightarrow> (error + ref) \<times> state" where
  "clean c s =
     (case apply_Corpus c cleaner s of (Inl e, s1) \<Rightarrow> (Inl e, s1) | (Inr _, s1) \<Rightarrow> (Inr c, s1))"

definition toLower :: "host \<Rightarrow> ref \<Rightarrow> state \<Rightarrow> (error + ref) \<times> state" where
  "toLower H c s =
     (case apply_Corpus c (lowerer H) s of
        (Inl e, s1) \<Rightarrow> (Inl e, s1)
      | (Inr _, s1) \<Rightarrow> (Inr c, s1))"

definition removeInterpunctuation :: "ref \<Rightarrow> state \<Rightarrow> (error + ref) \<times> state" where
  "removeInterpunctuation c s =
     (case apply_Corpus c remover s of (Inl e, s1) \<Rightarrow> (Inl e, s1) | (Inr _, s1) \<Rightarrow> (Inr c, s1))"

subsection \<open>map\<close>

text \<open>
  The loop of \<open>map\<close>: \<open>doc.text = func( doc.text, doc.attributes, i );
  ret.addDoc( doc )\<close>.
\<close>

fun map_loop :: "callback \<Rightarrow> ref \<Rightarrow> ref list \<Rightarrow> nat \<Rightarrow> state \<Rightarrow> error option \<times> state" where
  "map_loop func ret [] i s = (None, s)"
| "map_loop func ret (d # ds) i s =
     (case func (get_text (heap s) d) (get_attributes (heap s) d) i of
        Inl e \<Rightarrow> (Some e, s)
      | Inr t \<Rightarrow>
          (case addDoc ret (Obj d) (s\<lparr>heap := set_text (heap s) d t\<rparr>) of
             (Inl e, s1) \<Rightarrow> (Some e, s1)
           | (Inr _, s1) \<Rightarrow> map_loop func ret ds (Suc i) s1))"

definition map_Corpus :: "ref \<Rightarrow> callback \<Rightarrow> state \<Rightarrow> (error + ref) \<times> state" where
  "map_Corpus c func s =
     (case Corpus Undefined s of
        (Inl e, s1) \<Rightarrow> (Inl e, s1)
      | (Inr ret, s1) \<Rightarrow>
          (case map_loop func ret (documents s c) 0 s1 of
             (Some e, s2) \<Rightarrow> (Inl e, s2)
           | (None, s2) \<Rightarrow> (Inr ret, s2)))"

subsection \<open>groupBy\<close>

text \<open>
  The result \<open>corpora\<close> starts as the object literal \<open>{}\<close>. It is modelled by its own
  properties, in the order of their creation, and by whether its prototype is still
  \<open>Object.prototype\<close>. The callback's result is taken as the property key it is
  converted to. Two keys are not plain dictionary keys on such an object:
  \<^item> assigning to \<open>__proto__\<close> calls the inherited setter, which makes the new Corpus
    the prototype of \<open>corpora\<close> and creates no own property; from then on \<open>nDocs\<close>
    is an inherited accessor without a setter, and assigning to it throws in strict mode;
  \<^item> once \<open>hasOwnProperty\<close> is an own property (a Corpus), the call
    \<open>corpora.hasOwnProperty( group )\<close> throws.
\<close>

record corpora_obj =
  own :: "(jsstring \<times> ref) list"
  proto_replaced :: bool

fun groupBy_loop ::
  "callback \<Rightarrow> ref list \<Rightarrow> nat \<Rightarrow> corpora_obj \<Rightarrow> state \<Rightarrow> (error + corpora_obj) \<times> state" where
  "groupBy_loop func [] i m s = (Inr m, s)"
| "groupBy_loop func (d # ds) i m s =
     (case func (get_text (heap s) d) (get_attributes (heap s) d) i of
        Inl e \<Rightarrow> (Inl e, s)
      | Inr grp \<Rightarrow>
          (if map_of (own m) (js ''hasOwnProperty'') \<noteq> None then (Inl TypeError, s)
           else
             (case map_of (own m) grp of
                None \<Rightarrow>
                  (case Corpus (Obj d) s of
                     (Inl e, s1) \<Rightarrow> (Inl e, s1)
                   | (Inr c1, s1) \<Rightarrow>
                       (if grp = js ''__proto__''
                        then groupBy_loop func ds (Suc i) (m\<lparr>proto_replaced := True\<rparr>) s1
                        else if grp = js ''nDocs'' \<and> proto_replaced m then (Inl TypeError, s1)
                        else groupBy_loop func ds (Suc i) (m\<lparr>own := own m @ [(grp, c1)]\<rparr>) s1))
              | Some c1 \<Rightarrow>
                  (case addDoc c1 (Obj d) s of
                     (Inl e, s1) \<Rightarrow> (Inl e, s1)
                   | (Inr _, s1) \<Rightarrow> groupBy_loop func ds (Suc i) m s1))))"

definition groupBy :: "ref \<Rightarrow> callback \<Rightarrow> state \<Rightarrow> (error + corpora_obj) \<times> state" where
  "groupBy c func s =
     groupBy_loop func (documents s c) 0 \<lparr>own = [], proto_replaced = False\<rparr> s"

subsection \<open>removeWords\<close>

text \<open>
  The inner loop over the words for one document:
  \<open>myRegExp = new RegExp( ... ); this.documents[ doc ].text =
  this.documents[ doc ].text.replace( myRegExp, '' )\<close>.
\<close>

fun removeWords_words ::
  "host \<Rightarrow> bool \<Rightarrow> jsstring list \<Rightarrow> ref \<Rightarrow> obj list \<Rightarrow> error option \<times> obj list" where
  "removeWords_words H ci [] d h = (None, h)"
| "removeWords_words H ci (w # ws) d h =
     (case RegExp H w ci of
        Inl e \<Rightarrow> (Some e, h)
      | Inr replace \<Rightarrow>
          (case get_text h d of
             Str t \<Rightarrow> removeWords_words H ci ws d (set_text h d (replace t))
           | _ \<Rightarrow> (Some TypeError, h)))"

text \<open>The outer loop over the documents.\<close>

fun removeWords_docs ::
  "host \<Rightarrow> bool \<Rightarrow> jsstring list \<Rightarrow> ref list \<Rightarrow> obj list \<Rightarrow> error option \<times> obj list" where
  "removeWords_docs H ci ws [] h = (None, h)"
| "removeWords_docs H ci ws (d # ds) h =
     (case removeWords_words H ci ws d h of
        (Some e, h1) \<Rightarrow> (Some e, h1)
      | (None, h1) \<Rightarrow> removeWords_docs H ci ws ds h1)"

text \<open>
  \<open>caseInsensitive\<close> is \<open>None\<close> when the call has one argument
  (\<open>arguments.length > 1\<close> is false); the flag \<open>i\<close> is set when it is \<open>true\<close>.
  The template literal converts each \<open>words[i]\<close> to a string.
\<close>

definition removeWords ::
  "host \<Rightarrow> ref \<Rightarrow> jsval \<Rightarrow> jsval option \<Rightarrow> state \<Rightarrow> (error + ref) \<times> state" where
  "removeWords H c words caseInsensitive s =
     (if \<not> isArray words then (Inl TypeError, s)
      else if (case caseInsensitive of Some b \<Rightarrow> \<not> isBoolean b | None \<Rightarrow> False)
        then (Inl TypeError, s)
      else
        (case removeWords_docs H (caseInsensitive = Some (Bool True))
                (map ToString (elems words)) (documents s c) (heap s) of
           (Some e, h) \<Rightarrow> (Inl e, s\<lparr>heap := h\<rparr>)
         | (None, h) \<Rightarrow>
             (case clean c (s\<lparr>heap := h\<rparr>) of
                (Inl e, s1) \<Rightarrow> (Inl e, s1)
              | (Inr _, s1) \<Rightarrow> (Inr c, s1))))"

section \<open>Auxiliary notions\<close>

text \<open>Method chaining: the next method is called on the corpus the previous one returned.\<close>

definition andThen ::
  "(error + ref) \<times> state \<Rightarrow> (ref \<Rightarrow> state \<Rightarrow> (error + ref) \<times> state) \<Rightarrow> (error + ref) \<times> state" where
  "andThen r m = (case r of (Inl e, s) \<Rightarrow> (Inl e, s) | (Inr c, s) \<Rightarrow> m c s)"

text \<open>One round of a text-rewriting loop: the text of document \<open>d\<close> is replaced by \<open>f\<close> of it.\<close>

definition step :: "(jsval \<Rightarrow> jsstring) \<Rightarrow> ref \<Rightarrow> obj list \<Rightarrow> obj list" where
  "step f d h = set_text h d (f (get_text h d))"

text \<open>A document whose \<open>text\<close> property is present (and so a string).\<close>

definition has_text :: "obj list \<Rightarrow> ref \<Rightarrow> bool" where
  "has_text h d = isString (get_text h d)"

text \<open>
  The invariant of a corpus: it is an instance of the store and each of its documents
  passes \<open>isDoc\<close>, as the constructor, \<open>addDoc\<close> and \<open>addDocs\<close> check before they
  take a document in.
\<close>

definition wf_corpus :: "state \<Rightarrow> ref \<Rightarrow> bool" where
  "wf_corpus s c = (c < length (corpora s) \<and> list_all (\<lambda>d. isDoc s (Obj d)) (documents s c))"

text \<open>
  What the loops of \<open>removeWords\<close> make of one text, for words without pattern syntax
  characters: the replacements of the words, one after the other.
\<close>

definition rw :: "host \<Rightarrow> bool \<Rightarrow> jsstring list \<Rightarrow> jsval \<Rightarrow> jsstring" where
  "rw H ci ws v = fold (replace_all H ci) ws (str_of v)"

text \<open>
  The number of documents the spec gives for a constructor input, \<open>None\<close> where it
  gives \<open>InvalidArgument\<close>: 0 for an absent input, 1 for a single string or a single
  Document-shaped value, N for an N-element sequence of strings or of Document-shaped
  values.
\<close>

definition spec_nDocs :: "state \<Rightarrow> jsval \<Rightarrow> nat option" where
  "spec_nDocs s val =
     (case val of
        Undefined \<Rightarrow> Some 0
      | Str t \<Rightarrow> Some 1
      | Arr xs \<Rightarrow>
          (if list_all isString xs \<or> list_all (isDoc s) xs then Some (length xs) else None)
      | Obj r \<Rightarrow> (if isDoc s (Obj r) then Some 1 else None)
      | _ \<Rightarrow> None)"

text \<open>
  The in-place mutations of \<open>map\<close> in the words of the spec: for every document, in
  increasing index order from \<open>i\<close> on, its text becomes
  \<open>fn( text, attributes, i )\<close>.
\<close>

fun mutate_texts :: "(jsval \<Rightarrow> jsval \<Rightarrow> nat \<Rightarrow> jsstring) \<Rightarrow> ref list \<Rightarrow> nat \<Rightarrow> obj list \<Rightarrow> obj list" where
  "mutate_texts fn [] i h = h"
| "mutate_texts fn (d # ds) i h =
     mutate_texts fn ds (Suc i) (set_text h d (fn (get_text h d) (get_attributes h d) i))"

text \<open>
  \<open>groupBy\<close> in the words of the spec. \<open>keys_of\<close> lists the keys the callback gives
  for the documents, called with \<open>( text, attributes, index )\<close> from index \<open>i\<close> on.
  \<open>sel k\<close> selects the documents whose key is \<open>k\<close>, in the order of the corpus.
  \<open>spec_groupBy\<close> builds the mapping from key to the documents sharing that key:
  a document goes to the end of the group of its key, and a key seen for the first time
  opens a new group behind the others. \<open>groups\<close> reads the result of the code as such
  a mapping.
\<close>

definition sel :: "jsstring \<Rightarrow> ref list \<Rightarrow> jsstring list \<Rightarrow> ref list" where
  "sel k ds ks = map fst (filter (\<lambda>(d, k'). k' = k) (zip ds ks))"

definition add_group ::
  "jsstring \<Rightarrow> ref \<Rightarrow> (jsstring \<times> ref list) list \<Rightarrow> (jsstring \<times> ref list) list" where
  "add_group k d gs =
     (if k \<in> fst ` set gs
      then map (\<lambda>(k', ds). (k', if k' = k then ds @ [d] else ds)) gs
      else gs @ [(k, [d])])"

fun spec_groupBy ::
  "ref list \<Rightarrow> jsstring list \<Rightarrow> (jsstring \<times> ref list) list \<Rightarrow> (jsstring \<times> ref list) list" where
  "spec_groupBy (d # ds) (k # ks) gs = spec_groupBy ds ks (add_group k d gs)"
| "spec_groupBy _ _ gs = gs"

fun keys_of ::
  "(jsval \<Rightarrow> jsval \<Rightarrow> nat \<Rightarrow> jsstring) \<Rightarrow> obj list \<Rightarrow> ref list \<Rightarrow> nat \<Rightarrow> jsstring list" where
  "keys_of key h [] i = []"
| "keys_of key h (d # ds) i = key (get_text h d) (get_attributes h d) i # keys_of key h ds (Suc i)"

definition groups :: "corpora_obj \<Rightarrow> state \<Rightarrow> (jsstring \<times> ref list) list" where
  "groups m s = map (\<lambda>(k, g). (k, documents s g)) (own m)"

text \<open>
  The invariant of the loop of \<open>groupBy\<close>: the groups are corpora of the store, one
  per key and all different, \<open>hasOwnProperty\<close> is not a key, and the prototype of
  the result has not been replaced.
\<close>

definition groups_ok :: "corpora_obj \<Rightarrow> state \<Rightarrow> bool" where
  "groups_ok m s =
     (list_all (\<lambda>(k, g). g < length (corpora s)) (own m) \<and>
      distinct (map fst (own m)) \<and> distinct (map snd (own m)) \<and>
      js ''hasOwnProperty'' \<notin> set (map fst (own m)) \<and> \<not> proto_replaced m)"

text \<open>
  The result of \<open>removeWords\<close> in the words of the spec: every occurrence of the
  word that has a character of the class \<open>[\\s\\.]\<close> on both sides is deleted, the
  characters around it stay, and the text is cleaned afterwards. \<open>prev\<close> tells
  whether the character before the scan position is of the class.
\<close>

function spec_delete :: "host \<Rightarrow> bool \<Rightarrow> jsstring \<Rightarrow> bool \<Rightarrow> jsstring \<Rightarrow> jsstring" where
  "spec_delete H ci w prev [] = []"
| "spec_delete H ci w prev (c # cs) =
     (if prev \<and> w \<noteq> [] \<and> match_word H ci w (c # cs)
      then spec_delete H ci w True (drop (length w) (c # cs))
      else c # spec_delete H ci w (delim H ci c) cs)"
  by pat_completeness auto
termination
  by (relation "measure (\<lambda>(H, ci, w, prev, t). length t)") auto

definition spec_removeWords :: "host \<Rightarrow> bool \<Rightarrow> jsstring list \<Rightarrow> jsstring \<Rightarrow> jsstring" where
  "spec_removeWords H ci ws t = str_clean (fold (\<lambda>w. spec_delete H ci w False) ws t)"

subsection \<open>Stores for the closed instances\<close>

definition empty_state :: state where
  "empty_state = \<lparr>heap = [], corpora = []\<rparr>"

text \<open>The store after \<open>new Corpus( [ 'the cat. sat', 'a category item' ] )\<close>.\<close>

definition cat_state :: state where
  "cat_state =
     snd (Corpus (Arr [Str (js ''the cat. sat''), Str (js ''a category item'')]) empty_state)"

text \<open>The store after \<open>new Corpus()\<close>: one corpus, without documents.\<close>

definition empty_corpus_state :: state where
  "empty_corpus_state = snd (Corpus Undefined empty_state)"

text \<open>
  The store after \<open>d = new Corpus( 'x' ).documents[ 0 ]; new Corpus( [ d, d ] )\<close>:
  corpus 1 holds the one document twice.
\<close>

definition dup_state :: state where
  "dup_state = snd (Corpus (Arr [Obj 1, Obj 1]) (snd (Corpus (Str (js ''x'')) empty_state)))"

text \<open>
  The store after \<open>new Corpus( [ 'cat and cat and cat', 'the cat sat' ] )\<close>, and the
  store after \<open>new Corpus( 'a cat cat b' )\<close>.
\<close>

definition edge_state :: state where
  "edge_state =
     snd (Corpus (Arr [Str (js ''cat and cat and cat''), Str (js ''the cat sat'')]) empty_state)"

definition join_state :: state where
  "join_state = snd (Corpus (Str (js ''a cat cat b'')) empty_state)"

text \<open>
  The store after \<open>new Corpus( 'cat sat' )\<close>, and a host for an instance that needs one:
  its tables leave every character outside ASCII as it is, and it refuses every pattern
  that is left to it.
\<close>

definition start_state :: state where
  "start_state = snd (Corpus (Str (js ''cat sat'')) empty_state)"

definition ascii_host :: host where
  "ascii_host = \<lparr>upper_cu = (\<lambda>c. c), lower_str = (\<lambda>t. t),
     host_RegExp = (\<lambda>w ci. Inl SyntaxError)\<rparr>"

section \<open>Facts about the store\<close>

lemma length_set_text [simp]: "length (set_text h d t) = length h"
  by (simp add: set_text_def)

lemma get_text_set_text:
  "get_text (set_text h d t) d' = (if d' = d \<and> d < length h then Str t else get_text h d')"
  by (auto simp: get_text_def set_text_def deref_def)

lemma get_attributes_set_text [simp]:
  "get_attributes (set_text h d t) d' = get_attributes h d'"
  by (auto simp: get_attributes_def set_text_def deref_def nth_list_update)

lemma set_text_same: "get_text h d = Str t \<Longrightarrow> set_text h d t = h"
  by (auto simp: get_text_def set_text_def deref_def list_update_same_conv
      split: if_splits option.splits)

lemma set_text_twice [simp]: "set_text (set_text h d t) d t' = set_text h d t'"
  by (simp add: set_text_def)

lemma set_text_commute:
  "d \<noteq> d' \<Longrightarrow> set_text (set_text h d t) d' t' = set_text (set_text h d' t') d t"
  by (auto simp: set_text_def list_update_swap)

lemma documents_heap_update [simp]: "documents (s\<lparr>heap := h\<rparr>) c = documents s c"
  by (simp add: documents_def)

section \<open>Loops whose callback does not throw\<close>

lemma apply_loop_pure:
  "apply_loop (\<lambda>text a i. Inr (f text)) ds i h = (None, fold (step f) ds h)"
  by (induction ds arbitrary: i h) (simp_all add: step_def)

lemma length_fold_step [simp]: "length (fold (step f) ds h) = length h"
  by (induction ds arbitrary: h) (simp_all add: step_def)

lemma step_fixed_other:
  assumes "step f d' h = h"
  shows "step f d' (step f d h) = step f d h \<or> d = d'"
proof (cases "d = d'")
  case True then show ?thesis by simp
next
  case False
  have "step f d' (step f d h) = set_text (set_text h d (f (get_text h d))) d' (f (get_text h d'))"
    using False by (simp add: step_def get_text_set_text)
  also have "\<dots> = set_text (set_text h d' (f (get_text h d'))) d (f (get_text h d))"
    using False by (simp add: set_text_commute)
  also have "\<dots> = step f d h"
    using assms by (simp add: step_def)
  finally show ?thesis by simp
qed

lemma step_idem:
  assumes "\<And>v. f (Str (f v)) = f v"
  shows "step f d (step f d h) = step f d h"
proof (cases "d < length h")
  case True
  then have "get_text (set_text h d (f (get_text h d))) d = Str (f (get_text h d))"
    by (simp add: get_text_set_text)
  then show ?thesis by (simp add: step_def assms)
next
  case False
  then show ?thesis by (simp add: step_def set_text_def)
qed

lemma fold_step_fixed:
  assumes "\<And>v. f (Str (f v)) = f v" "step f d' h = h \<or> d' \<in> set ds"
  shows "step f d' (fold (step f) ds h) = fold (step f) ds h"
  using assms(2)
proof (induction ds arbitrary: h)
  case Nil then show ?case by simp
next
  case (Cons d ds)
  have "step f d' (step f d h) = step f d h \<or> d' \<in> set ds"
    using Cons.prems step_fixed_other[of f d' h d] step_idem[OF assms(1), of d h] by auto
  then show ?case using Cons.IH by simp
qed

lemma fold_fixed: "(\<And>d. d \<in> set ds \<Longrightarrow> g d h = h) \<Longrightarrow> fold g ds h = h"
  by (induction ds) simp_all

lemma fold_step_idem:
  assumes "\<And>v. f (Str (f v)) = f v"
  shows "fold (step f) ds (fold (step f) ds h) = fold (step f) ds h"
  by (rule fold_fixed) (simp add: fold_step_fixed[OF assms])

lemma get_text_step:
  "get_text (step f d h) d' =
     (if d' = d \<and> d < length h then Str (f (get_text h d)) else get_text h d')"
  by (simp add: step_def get_text_set_text)

lemma length_step [simp]: "length (step f d h) = length h"
  by (simp add: step_def)

lemma has_text_step: "has_text h d' \<Longrightarrow> has_text (step f d h) d'"
  by (simp add: has_text_def get_text_step isString_def)

lemma has_text_bound: "has_text h d \<Longrightarrow> d < length h"
  by (auto simp: has_text_def get_text_def deref_def isString_def split: if_splits)

lemma apply_loop_on_text:
  assumes "\<And>v a i. isString v \<Longrightarrow> func v a i = Inr (f v)" "list_all (has_text h) ds"
  shows "apply_loop func ds i h = (None, fold (step f) ds h)"
  using assms(2)
proof (induction ds arbitrary: i h)
  case Nil then show ?case by simp
next
  case (Cons d ds)
  then have d: "isString (get_text h d)" by (simp add: has_text_def)
  have "list_all (has_text (step f d h)) ds"
    using Cons.prems by (simp add: list_all_iff has_text_step)
  then show ?case using Cons.IH[of "step f d h" "Suc i"] assms(1)[OF d]
    by (simp add: step_def)
qed

lemma fold_step_has_text: "has_text h d' \<Longrightarrow> has_text (fold (step f) ds h) d'"
  by (induction ds arbitrary: h) (simp_all add: has_text_step)

lemma get_text_fold_step:
  "d < length h \<Longrightarrow>
   get_text (fold (step f) ds h) d = ((\<lambda>v. Str (f v)) ^^ count_list ds d) (get_text h d)"
proof (induction ds arbitrary: h)
  case Nil then show ?case by simp
next
  case (Cons d' ds)
  define g where "g = (\<lambda>v. Str (f v))"
  have swap: "(g ^^ n) (g x) = g ((g ^^ n) x)" for n x
    by (simp add: funpow_swap1)
  have "get_text (fold (step f) ds (step f d' h)) d =
          (g ^^ count_list ds d) (get_text (step f d' h) d)"
    using Cons.IH[of "step f d' h"] Cons.prems by (simp add: g_def)
  also have "\<dots> = (g ^^ count_list (d' # ds) d) (get_text h d)"
  proof (cases "d' = d")
    case True
    then have "get_text (step f d' h) d = g (get_text h d)"
      using Cons.prems by (simp add: get_text_step g_def)
    then show ?thesis using True by (simp add: swap)
  next
    case False
    then show ?thesis by (simp add: get_text_step)
  qed
  finally show ?case by (simp add: g_def)
qed

lemma get_text_fold_step_once:
  "d < length h \<Longrightarrow> count_list ds d = 1 \<Longrightarrow>
   get_text (fold (step f) ds h) d = Str (f (get_text h d))"
  by (simp add: get_text_fold_step)

lemma get_text_fold_step_fix:
  assumes "d \<in> set ds" "get_text h d = Str t" "f (Str t) = t'" "f (Str t') = t'"
  shows "get_text (fold (step f) ds h) d = Str t'"
proof -
  have d: "d < length h"
    using assms(2) by (auto simp: get_text_def deref_def split: if_splits)
  have fixed: "((\<lambda>v. Str (f v)) ^^ n) (Str t') = Str t'" for n
    by (induction n) (simp_all add: assms(4))
  obtain n where n: "count_list ds d = Suc n"
    using assms(1) by (metis count_list_0_iff not0_implies_Suc)
  have "((\<lambda>v. Str (f v)) ^^ Suc n) (Str t) = ((\<lambda>v. Str (f v)) ^^ n) (Str (f (Str t)))"
    by (simp only: funpow_Suc_right o_apply)
  then show ?thesis
    by (simp only: get_text_fold_step[OF d] n assms(2,3) fixed)
qed

lemma get_text_fold_step_inv:
  assumes "P (get_text h d)" "\<And>v. P v \<Longrightarrow> P (Str (f v))"
  shows "P (get_text (fold (step f) ds h) d)"
  using assms(1)
proof (induction ds arbitrary: h)
  case Nil then show ?case by simp
next
  case (Cons d' ds)
  have "P (get_text (step f d' h) d)"
    using Cons.prems assms(2)[of "get_text h d"] by (auto simp: get_text_step)
  then show ?case using Cons.IH by simp
qed

lemma isDoc_has_text: "isDoc s (Obj d) \<Longrightarrow> has_text (heap s) d"
  by (auto simp: isDoc_def has_text_def get_text_def isString_def ref_of_def split: option.splits)

lemma wf_corpus_has_text: "wf_corpus s c \<Longrightarrow> list_all (has_text (heap s)) (documents s c)"
  by (auto simp: wf_corpus_def list_all_iff isDoc_has_text)

lemmas ev = js_def is_space_def whitespace_def delim_def char_eq_def match_at_def
  plain_word_def syntax_chars_def str_clean_def str_trim_def

lemma cat_state_eq:
  "cat_state = \<lparr>heap = [\<lparr>doc_text = None, doc_attributes = None\<rparr>,
       \<lparr>doc_text = Some (js ''the cat. sat''), doc_attributes = Some (Obj 0)\<rparr>,
       \<lparr>doc_text = None, doc_attributes = None\<rparr>,
       \<lparr>doc_text = Some (js ''a category item''), doc_attributes = Some (Obj 2)\<rparr>],
     corpora = [[1, 3]]\<rparr>"
  by (simp add: cat_state_def empty_state_def Corpus_def init_def isString_def isStringArray_def
      elems_def Doc_def str_of_def Let_def)

lemma wf_cat_state: "wf_corpus cat_state 0"
  by (simp add: cat_state_eq wf_corpus_def documents_def deref_def isDoc_def isObject_def
      ref_of_def)

lemma documents_cat_state: "documents cat_state 0 = [1, 3]"
  by (simp add: cat_state_eq documents_def deref_def)

section \<open>Trimming\<close>

lemma dropWhile_fixed: "xs = [] \<or> \<not> P (hd xs) \<Longrightarrow> dropWhile P xs = xs"
  by (cases xs) auto

lemma str_trim_idem: "str_trim (str_trim t) = str_trim t"
proof -
  define u where "u = dropWhile is_space t"
  define v where "v = dropWhile is_space (rev u)"
  have u: "u = [] \<or> \<not> is_space (hd u)"
    unfolding u_def using hd_dropWhile[of is_space t] by blast
  have v: "v = [] \<or> \<not> is_space (hd v)"
    unfolding v_def using hd_dropWhile[of is_space "rev u"] by blast
  have "rev u = takeWhile is_space (rev u) @ v"
    unfolding v_def by simp
  then have "u = rev v @ rev (takeWhile is_space (rev u))"
    by (metis rev_append rev_rev_ident)
  then have "rev v \<noteq> [] \<Longrightarrow> hd u = hd (rev v) \<and> u \<noteq> []"
    by (metis hd_append2 append_is_Nil_conv)
  then have "rev v = [] \<or> \<not> is_space (hd (rev v))"
    using u by auto
  then have 1: "dropWhile is_space (rev v) = rev v" by (rule dropWhile_fixed)
  have 2: "dropWhile is_space v = v" using v by (rule dropWhile_fixed)
  have "str_trim t = rev v" by (simp add: str_trim_def u_def v_def)
  moreover have "str_trim (rev v) = rev v" by (simp add: str_trim_def 1 2)
  ultimately show ?thesis by simp
qed

lemma trim_eq:
  "trim c s =
     (Inr c, s\<lparr>heap := fold (step (\<lambda>v. str_trim (makeString v))) (documents s c) (heap s)\<rparr>)"
  unfolding trim_def apply_Corpus_def trimmer_def by (simp add: apply_loop_pure)

text \<open>
  Claim C8. \<open>trim\<close> is idempotent: on every corpus of every store, also one that holds
  the same document twice, \<open>trim\<close> returns the corpus, and a second \<open>trim\<close> right
  after it returns the corpus again and leaves the store, so every document's text, as
  the first call left it.
\<close>

theorem trim_idempotent:
  "fst (trim c s) = Inr c \<and> trim c (snd (trim c s)) = trim c s"
proof -
  have "\<And>v. str_trim (makeString (Str (str_trim (makeString v)))) = str_trim (makeString v)"
    by (simp add: makeString_def str_trim_idem)
  then show ?thesis
    by (simp add: trim_eq fold_step_idem)
qed

section \<open>removeWords on words without pattern syntax\<close>

lemma removeWords_words_plain:
  assumes "list_all plain_word ws" "get_text h d = Str t"
  shows "removeWords_words H ci ws d h = (None, step (rw H ci ws) d h)"
  using assms
proof (induction ws arbitrary: h t)
  case Nil
  then show ?case by (simp add: step_def rw_def str_of_def set_text_same)
next
  case (Cons w ws)
  have d: "d < length h"
    using Cons.prems(2) by (auto simp: get_text_def deref_def split: if_splits)
  define h1 where "h1 = set_text h d (replace_all H ci w t)"
  have t1: "get_text h1 d = Str (replace_all H ci w t)"
    using d by (simp add: h1_def get_text_set_text)
  have "removeWords_words H ci (w # ws) d h = removeWords_words H ci ws d h1"
    using Cons.prems by (simp add: RegExp_def h1_def)
  also have "\<dots> = (None, step (rw H ci ws) d h1)"
    using Cons.IH[OF _ t1] Cons.prems(1) by simp
  also have "step (rw H ci ws) d h1 = step (rw H ci (w # ws)) d h"
    using Cons.prems(2) by (simp add: step_def t1 rw_def str_of_def) (simp add: h1_def)
  finally show ?case .
qed

lemma removeWords_docs_plain:
  assumes "list_all plain_word ws" "list_all (has_text h) ds"
  shows "removeWords_docs H ci ws ds h = (None, fold (step (rw H ci ws)) ds h)"
  using assms(2)
proof (induction ds arbitrary: h)
  case Nil then show ?case by simp
next
  case (Cons d ds)
  then obtain t where t: "get_text h d = Str t"
    by (auto simp: has_text_def isString_def split: jsval.splits)
  have "list_all (has_text (step (rw H ci ws) d h)) ds"
    using Cons.prems by (simp add: list_all_iff has_text_step)
  then show ?case
    using Cons.IH removeWords_words_plain[OF assms(1) t] by simp
qed

lemma clean_eq:
  "clean c s =
     (Inr c, s\<lparr>heap := fold (step (\<lambda>v. str_clean (makeString v))) (documents s c) (heap s)\<rparr>)"
  unfolding clean_def apply_Corpus_def cleaner_def by (simp add: apply_loop_pure)

lemma removeWords_eq:
  assumes "isArray words" "caseInsensitive = None \<or> (\<exists>b. caseInsensitive = Some (Bool b))"
    "list_all plain_word (map ToString (elems words))"
    "list_all (has_text (heap s)) (documents s c)"
  shows "removeWords H c words caseInsensitive s =
     (Inr c, s\<lparr>heap := fold (step (\<lambda>v. str_clean (makeString v))) (documents s c)
        (fold (step (rw H (caseInsensitive = Some (Bool True)) (map ToString (elems words))))
           (documents s c) (heap s))\<rparr>)"
proof -
  have "\<not> (case caseInsensitive of Some b \<Rightarrow> \<not> isBoolean b | None \<Rightarrow> False)"
    using assms(2) by (auto simp: isBoolean_def)
  then show ?thesis
    using assms(1) removeWords_docs_plain[OF assms(3,4)]
    by (simp add: removeWords_def clean_eq)
qed

text \<open>
  Claim C2. On a corpus (all of whose documents pass \<open>isDoc\<close>) that contains a
  document with text \<open>the cat. sat\<close>, \<open>removeWords( [ 'cat' ] )\<close> returns the corpus
  and leaves that document with text \<open>the sat\<close>; a document with text
  \<open>a category item\<close> keeps its text. This holds wherever the document stands in the
  corpus, and also when it stands there more than once.
\<close>

theorem removeWords_cat:
  assumes "wf_corpus s c" "d \<in> set (documents s c)"
  shows "fst (removeWords H c (Arr [Str (js ''cat'')]) None s) = Inr c \<and>
    (get_text (heap s) d = Str (js ''the cat. sat'') \<longrightarrow>
       get_text (heap (snd (removeWords H c (Arr [Str (js ''cat'')]) None s))) d
         = Str (js ''the sat'')) \<and>
    (get_text (heap s) d = Str (js ''a category item'') \<longrightarrow>
       get_text (heap (snd (removeWords H c (Arr [Str (js ''cat'')]) None s))) d
         = Str (js ''a category item''))"
proof -
  let ?r = "rw H False [js ''cat'']" and ?c = "\<lambda>v. str_clean (makeString v)"
  have eq: "removeWords H c (Arr [Str (js ''cat'')]) None s =
    (Inr c, s\<lparr>heap := fold (step ?c) (documents s c) (fold (step ?r) (documents s c) (heap s))\<rparr>)"
    using removeWords_eq[of "Arr [Str (js ''cat'')]" None s c H] wf_corpus_has_text[OF assms(1)]
    by (simp add: isArray_def elems_def plain_word_def syntax_chars_def js_def)
  have r1: "?r (Str (js ''the cat. sat'')) = js ''the sat''"
    by (simp add: rw_def str_of_def ev)
  have r2: "?r (Str (js ''the sat'')) = js ''the sat''"
    by (simp add: rw_def str_of_def ev)
  have r3: "?r (Str (js ''a category item'')) = js ''a category item''"
    by (simp add: rw_def str_of_def ev)
  have c1: "?c (Str (js ''the sat'')) = js ''the sat''"
    by (simp add: makeString_def ev)
  have c3: "?c (Str (js ''a category item'')) = js ''a category item''"
    by (simp add: makeString_def ev)
  show ?thesis
    using assms(2)
    by (auto simp: eq intro!: get_text_fold_step_fix[where f = ?c] 
        get_text_fold_step_fix[where f = ?r] r1 r2 r3 c1 c3)
qed

theorem removeWords_cat_witness:
  "\<forall>H. wf_corpus cat_state 0 \<and> 1 \<in> set (documents cat_state 0) \<and> 3 \<in> set (documents cat_state 0)
     \<and> get_text (heap cat_state) 1 = Str (js ''the cat. sat'')
     \<and> get_text (heap cat_state) 3 = Str (js ''a category item'')
     \<and> fst (removeWords H 0 (Arr [Str (js ''cat'')]) None cat_state) = Inr 0
     \<and> get_text (heap (snd (removeWords H 0 (Arr [Str (js ''cat'')]) None cat_state))) 1
          = Str (js ''the sat'')
     \<and> get_text (heap (snd (removeWords H 0 (Arr [Str (js ''cat'')]) None cat_state))) 3
          = Str (js ''a category item'')"
proof
  fix H
  note wf = wf_cat_state
  have d1: "1 \<in> set (documents cat_state 0)" and d3: "3 \<in> set (documents cat_state 0)"
    by (simp_all add: cat_state_eq documents_def deref_def)
  have t1: "get_text (heap cat_state) 1 = Str (js ''the cat. sat'')"
    and t3: "get_text (heap cat_state) 3 = Str (js ''a category item'')"
    by (simp_all add: cat_state_eq get_text_def deref_def)
  show "wf_corpus cat_state 0 \<and> 1 \<in> set (documents cat_state 0) \<and> 3 \<in> set (documents cat_state 0)
     \<and> get_text (heap cat_state) 1 = Str (js ''the cat. sat'')
     \<and> get_text (heap cat_state) 3 = Str (js ''a category item'')
     \<and> fst (removeWords H 0 (Arr [Str (js ''cat'')]) None cat_state) = Inr 0
     \<and> get_text (heap (snd (removeWords H 0 (Arr [Str (js ''cat'')]) None cat_state))) 1
          = Str (js ''the sat'')
     \<and> get_text (heap (snd (removeWords H 0 (Arr [Str (js ''cat'')]) None cat_state))) 3
          = Str (js ''a category item'')"
    using wf d1 d3 t1 t3 removeWords_cat[OF wf d1, of H] removeWords_cat[OF wf d3, of H]
    by simp
qed

section \<open>The scenario of the spec\<close>

lemmas corpus_ev = Corpus_def init_def isString_def isStringArray_def
      elems_def Doc_def str_of_def Let_def apply_Corpus_def toLower_def removeInterpunctuation_def
      clean_def lowerer_def remover_def cleaner_def andThen_def documents_def deref_def
      get_text_def get_attributes_def set_text_def nth_append nDocs_def

text \<open>
  Claim C7. In every store, \<open>new Corpus( [ 'Hello World!', 'Foo, Bar; Baz-Qux' ] )
  .toLower().removeInterpunctuation().clean()\<close> returns the new corpus, which has
  exactly two documents, with texts \<open>hello world\<close> and \<open>foo bar baz qux\<close>.
\<close>

theorem scenario:
  "\<exists>s'. andThen (andThen (andThen
        (Corpus (Arr [Str (js ''Hello World!''), Str (js ''Foo, Bar; Baz-Qux'')]) s)
        (toLower H)) removeInterpunctuation) clean = (Inr (length (corpora s)), s')
     \<and> nDocs s' (length (corpora s)) = 2
     \<and> map (get_text (heap s')) (documents s' (length (corpora s)))
         = [Str (js ''hello world''), Str (js ''foo bar baz qux'')]"
  by (simp add: corpus_ev toLowerCase_def ascii_lower_def replace_interpunctuation_def
      interpunctuation_def makeString_def ev)

section \<open>Construction\<close>

lemma get_text_append: "d < length h \<Longrightarrow> get_text (h @ ext) d = get_text h d"
  by (simp add: get_text_def deref_def nth_append)

lemma Doc_props:
  "Doc t s = (d, s1) \<Longrightarrow>
     d = Suc (length (heap s)) \<and> corpora s1 = corpora s \<and>
     heap s1 = heap s @ [\<lparr>doc_text = None, doc_attributes = None\<rparr>,
        \<lparr>doc_text = Some t, doc_attributes = Some (Obj (length (heap s)))\<rparr>]"
  by (auto simp: Doc_def Let_def)

lemma get_text_Doc: "Doc t s = (d, s1) \<Longrightarrow> get_text (heap s1) d = Str t \<and> d < length (heap s1)"
  by (auto simp: Doc_def Let_def get_text_def deref_def nth_append)

lemma Docs_props:
  "Docs vs s = (ds, s1) \<Longrightarrow>
     length ds = length vs \<and> corpora s1 = corpora s \<and> (\<exists>ext. heap s1 = heap s @ ext) \<and>
     map (get_text (heap s1)) ds = map (\<lambda>v. Str (str_of v)) vs \<and>
     (\<forall>d\<in>set ds. length (heap s) \<le> d \<and> d < length (heap s1))"
proof (induction vs arbitrary: s ds s1)
  case Nil then show ?case by simp
next
  case (Cons v vs)
  obtain d sa where d: "Doc (str_of v) s = (d, sa)" by (cases "Doc (str_of v) s")
  obtain ds' sb where ds': "Docs vs sa = (ds', sb)" by (cases "Docs vs sa")
  from Cons.prems d ds' have eq: "ds = d # ds'" "s1 = sb" by simp_all
  note IH = Cons.IH[OF ds']
  from IH obtain ext where ext: "heap sb = heap sa @ ext" by blast
  have dtxt: "get_text (heap sa) d = Str (str_of v)" "d < length (heap sa)"
    using get_text_Doc[OF d] by simp_all
  have "get_text (heap sb) d = Str (str_of v)"
    using dtxt by (simp add: ext get_text_append)
  moreover have "heap sa = heap s @ [\<lparr>doc_text = None, doc_attributes = None\<rparr>,
        \<lparr>doc_text = Some (str_of v), doc_attributes = Some (Obj (length (heap s)))\<rparr>]"
    and "corpora sa = corpora s" and "d = Suc (length (heap s))"
    using Doc_props[OF d] by simp_all
  ultimately show ?case
    using IH ext by (auto simp: eq)
qed

lemma list_all_isString_str_of: "list_all isString xs \<Longrightarrow> map (\<lambda>v. Str (str_of v)) xs = xs"
  by (induction xs) (auto simp: isString_def str_of_def split: jsval.splits)

lemma isDoc_cases: "isDoc s val \<Longrightarrow> \<exists>r. val = Obj r"
  by (cases val) (simp_all add: isDoc_def isObject_def)

lemma not_both: "xs \<noteq> [] \<Longrightarrow> list_all isString xs \<Longrightarrow> \<not> list_all (isDoc s) xs"
  by (cases xs) (auto simp: isString_def isDoc_def isObject_def split: jsval.splits)

text \<open>
  Claim C4. For every constructor input and every store: where the spec gives a number
  of documents, \<open>new Corpus( input )\<close> returns a new corpus with that \<open>nDocs\<close> and
  leaves the corpora of the store as they are; a string is wrapped into one document
  with that text; the strings of a sequence become documents with these texts, in order;
  a Document-shaped value and a sequence of Document-shaped values are adopted (the
  corpus holds these very references, in order, and the store of objects is unchanged).
  Every other input raises \<open>TypeError\<close> and leaves the store unchanged.
\<close>

theorem Corpus_shapes:
  "(case spec_nDocs s val of
      None \<Rightarrow> Corpus val s = (Inl TypeError, s)
    | Some n \<Rightarrow>
        (\<exists>s1. Corpus val s = (Inr (length (corpora s)), s1) \<and>
           nDocs s1 (length (corpora s)) = n \<and>
           (\<forall>c < length (corpora s). documents s1 c = documents s c) \<and>
           (\<forall>t. val = Str t \<longrightarrow>
              map (get_text (heap s1)) (documents s1 (length (corpora s))) = [Str t]) \<and>
           (\<forall>xs. val = Arr xs \<and> list_all isString xs \<longrightarrow>
              map (get_text (heap s1)) (documents s1 (length (corpora s))) = xs) \<and>
           (isDoc s val \<longrightarrow>
              documents s1 (length (corpora s)) = [ref_of val] \<and> heap s1 = heap s) \<and>
           (\<forall>xs. val = Arr xs \<and> list_all (isDoc s) xs \<longrightarrow>
              documents s1 (length (corpora s)) = map ref_of xs \<and> heap s1 = heap s)))"
proof (cases val)
  case Undefined
  then show ?thesis
    by (simp add: spec_nDocs_def Corpus_def init_def nDocs_def documents_def deref_def nth_append
        isDoc_def isObject_def)
next
  case Null
  then show ?thesis
    by (simp add: spec_nDocs_def Corpus_def init_def isString_def isStringArray_def isDoc_def
        isObject_def isDocArray_def isArray_def)
next
  case (Bool b)
  then show ?thesis
    by (simp add: spec_nDocs_def Corpus_def init_def isString_def isStringArray_def isDoc_def
        isObject_def isDocArray_def isArray_def)
next
  case (Str t)
  obtain d sa where d: "Doc t s = (d, sa)" by (cases "Doc t s")
  show ?thesis
    using Doc_props[OF d] get_text_Doc[OF d]
    by (simp add: Str spec_nDocs_def Corpus_def init_def isString_def str_of_def d nDocs_def
        documents_def deref_def nth_append isDoc_def isObject_def)
next
  case (Arr xs)
  show ?thesis
  proof (cases "isStringArray val")
    case True
    then have xs: "xs \<noteq> []" "list_all isString xs"
      by (simp_all add: Arr isStringArray_def)
    obtain ds sa where ds: "Docs xs s = (ds, sa)" by (cases "Docs xs s")
    show ?thesis
      using Docs_props[OF ds] xs not_both[OF xs, of s] True[unfolded Arr]
      by (simp add: Arr spec_nDocs_def Corpus_def init_def isString_def ds elems_def
          nDocs_def documents_def deref_def nth_append isDoc_def isObject_def
          list_all_isString_str_of)
  next
    case False
    then have nostr: "xs = [] \<or> \<not> list_all isString xs"
      by (auto simp: Arr isStringArray_def)
    show ?thesis
    proof (cases "list_all (isDoc s) xs")
      case True
      then show ?thesis
        using False[unfolded Arr] nostr
        by (auto simp: Arr spec_nDocs_def Corpus_def init_def isString_def elems_def
          nDocs_def documents_def deref_def nth_append isDoc_def isObject_def isDocArray_def
          isArray_def)
    next
      case no: False
      then have "xs \<noteq> []" by auto
      then show ?thesis
        using False[unfolded Arr] nostr no
        by (simp add: Arr spec_nDocs_def Corpus_def init_def isString_def elems_def
          isDoc_def isObject_def isDocArray_def isArray_def)
    qed
  qed
next
  case (Obj r)
  then show ?thesis
    by (simp add: spec_nDocs_def Corpus_def init_def isString_def isStringArray_def
        isDocArray_def isArray_def nDocs_def documents_def deref_def nth_append ref_of_def)
qed

theorem Corpus_shapes_witness:
  "Corpus (Bool True) empty_state = (Inl TypeError, empty_state)
   \<and> Corpus (Arr [Str (js ''a''), Obj 1]) cat_state = (Inl TypeError, cat_state)
   \<and> nDocs (snd (Corpus Undefined empty_state)) 0 = 0
   \<and> nDocs (snd (Corpus (Str (js ''a'')) empty_state)) 0 = 1
   \<and> map (get_text (heap (snd (Corpus (Str (js ''a'')) empty_state))))
        (documents (snd (Corpus (Str (js ''a'')) empty_state)) 0) = [Str (js ''a'')]
   \<and> nDocs (snd (Corpus (Arr [Str (js ''a''), Str (js ''b'')]) empty_state)) 0 = 2
   \<and> map (get_text (heap (snd (Corpus (Arr [Str (js ''a''), Str (js ''b'')]) empty_state))))
        (documents (snd (Corpus (Arr [Str (js ''a''), Str (js ''b'')]) empty_state)) 0)
        = [Str (js ''a''), Str (js ''b'')]
   \<and> isDoc cat_state (Obj 1)
   \<and> Corpus (Obj 1) cat_state = (Inr 1, snd (Corpus (Obj 1) cat_state))
   \<and> nDocs (snd (Corpus (Obj 1) cat_state)) 1 = 1
   \<and> documents (snd (Corpus (Obj 1) cat_state)) 1 = [1]
   \<and> heap (snd (Corpus (Obj 1) cat_state)) = heap cat_state
   \<and> nDocs (snd (Corpus (Arr [Obj 3, Obj 1]) cat_state)) 1 = 2
   \<and> documents (snd (Corpus (Arr [Obj 3, Obj 1]) cat_state)) 1 = [3, 1]
   \<and> documents (snd (Corpus (Arr [Obj 3, Obj 1]) cat_state)) 0 = documents cat_state 0"
proof -
  have d1: "isDoc cat_state (Obj 1)" and d3: "isDoc cat_state (Obj 3)"
    by (simp_all add: cat_state_eq isDoc_def isObject_def ref_of_def deref_def)
  have l0: "length (corpora empty_state) = 0" and l1: "length (corpora cat_state) = 1"
    by (simp_all add: empty_state_def cat_state_eq)
  have nd: "\<not> isDoc cat_state (Str (js ''a''))" "\<not> isString (Obj 1)"
    by (simp_all add: isDoc_def isObject_def isString_def)
  have 1: "Corpus (Bool True) empty_state = (Inl TypeError, empty_state)"
    using Corpus_shapes[where s = empty_state and val = "Bool True"] by (simp add: spec_nDocs_def)
  have 2: "Corpus (Arr [Str (js ''a''), Obj 1]) cat_state = (Inl TypeError, cat_state)"
    using Corpus_shapes[where s = cat_state and val = "Arr [Str (js ''a''), Obj 1]"] nd
    by (simp add: spec_nDocs_def)
  have 3: "nDocs (snd (Corpus Undefined empty_state)) 0 = 0"
    using Corpus_shapes[where s = empty_state and val = Undefined] l0 by (auto simp: spec_nDocs_def)
  have 4: "nDocs (snd (Corpus (Str (js ''a'')) empty_state)) 0 = 1
     \<and> map (get_text (heap (snd (Corpus (Str (js ''a'')) empty_state))))
        (documents (snd (Corpus (Str (js ''a'')) empty_state)) 0) = [Str (js ''a'')]"
    using Corpus_shapes[where s = empty_state and val = "Str (js ''a'')"] l0 by (auto simp: spec_nDocs_def)
  have 5: "nDocs (snd (Corpus (Arr [Str (js ''a''), Str (js ''b'')]) empty_state)) 0 = 2
     \<and> map (get_text (heap (snd (Corpus (Arr [Str (js ''a''), Str (js ''b'')]) empty_state))))
        (documents (snd (Corpus (Arr [Str (js ''a''), Str (js ''b'')]) empty_state)) 0)
        = [Str (js ''a''), Str (js ''b'')]"
    using Corpus_shapes[where s = empty_state and val = "Arr [Str (js ''a''), Str (js ''b'')]"] l0
    by (auto simp: spec_nDocs_def isString_def)
  have 6: "Corpus (Obj 1) cat_state = (Inr 1, snd (Corpus (Obj 1) cat_state))
     \<and> nDocs (snd (Corpus (Obj 1) cat_state)) 1 = 1
     \<and> documents (snd (Corpus (Obj 1) cat_state)) 1 = [1]
     \<and> heap (snd (Corpus (Obj 1) cat_state)) = heap cat_state"
    using Corpus_shapes[where s = cat_state and val = "Obj 1"] l1 d1 by (auto simp: spec_nDocs_def ref_of_def)
  have 7: "nDocs (snd (Corpus (Arr [Obj 3, Obj 1]) cat_state)) 1 = 2
     \<and> documents (snd (Corpus (Arr [Obj 3, Obj 1]) cat_state)) 1 = [3, 1]
     \<and> documents (snd (Corpus (Arr [Obj 3, Obj 1]) cat_state)) 0 = documents cat_state 0"
    using Corpus_shapes[where s = cat_state and val = "Arr [Obj 3, Obj 1]"] l1 d1 d3
    by (auto simp: spec_nDocs_def ref_of_def)
  show ?thesis using 1 2 3 4 5 6 7 d1 by simp
qed

section \<open>setAttributes\<close>

lemma length_set_attributes [simp]: "length (set_attributes h d a) = length h"
  by (simp add: set_attributes_def)

lemma get_text_set_attributes [simp]: "get_text (set_attributes h d a) d' = get_text h d'"
  by (auto simp: get_text_def set_attributes_def deref_def nth_list_update)

lemma get_attributes_set_attributes:
  "get_attributes (set_attributes h d a) d' =
     (if d' = d \<and> d < length h then a else get_attributes h d')"
  by (auto simp: get_attributes_def set_attributes_def deref_def)

lemma length_setAttributes_loop [simp]: "length (setAttributes_loop ds as h) = length h"
  by (induction ds as h rule: setAttributes_loop.induct) simp_all

lemma get_text_setAttributes_loop [simp]:
  "get_text (setAttributes_loop ds as h) d = get_text h d"
  by (induction ds as h rule: setAttributes_loop.induct) simp_all

lemma setAttributes_loop_other:
  "d \<notin> set ds \<Longrightarrow> get_attributes (setAttributes_loop ds as h) d = get_attributes h d"
  by (induction ds as h rule: setAttributes_loop.induct)
     (simp_all add: get_attributes_set_attributes)

lemma setAttributes_loop_last:
  assumes "length ds = length as" "i < length ds" "ds ! i < length h"
    "\<forall>j. i < j \<and> j < length ds \<longrightarrow> ds ! j \<noteq> ds ! i"
  shows "get_attributes (setAttributes_loop ds as h) (ds ! i) = as ! i"
  using assms
proof (induction ds as h arbitrary: i rule: setAttributes_loop.induct)
  case (1 d ds a as h)
  show ?case
  proof (cases i)
    case 0
    have "d \<notin> set ds"
    proof
      assume "d \<in> set ds"
      then obtain j where "j < length ds" "ds ! j = d" by (auto simp: in_set_conv_nth)
      then show False using "1.prems"(4) 0 by (auto dest: spec[of _ "Suc j"])
    qed
    then show ?thesis
      using "1.prems"(3) 0
      by (simp add: setAttributes_loop_other get_attributes_set_attributes)
  next
    case (Suc k)
    have "\<forall>j. k < j \<and> j < length ds \<longrightarrow> ds ! j \<noteq> ds ! k"
      using "1.prems"(4) Suc by (auto dest: spec[of _ "Suc _"])
    then show ?thesis
      using "1.IH"[of k] "1.prems" Suc by simp
  qed
qed simp_all

lemma wf_corpus_bound: "wf_corpus s c \<Longrightarrow> i < nDocs s c \<Longrightarrow> documents s c ! i < length (heap s)"
  using wf_corpus_has_text[of s c] has_text_bound[of "heap s" "documents s c ! i"]
  by (simp add: list_all_length nDocs_def)

lemma empty_corpus_state_eq: "empty_corpus_state = \<lparr>heap = [], corpora = [[]]\<rparr>"
  by (simp add: empty_corpus_state_def empty_state_def Corpus_def init_def)

lemma nDocs_cat_state: "nDocs cat_state 0 = 2"
  by (simp add: cat_state_eq nDocs_def documents_def deref_def)

text \<open>
  Claim C10. When \<open>arr\<close> is not an array whose every element is an object (a value
  that is no array, an array of strings, a mixed array), \<open>setAttributes\<close> raises
  \<open>TypeError\<close> and the store is exactly as before. The corpus and its number of
  documents are arbitrary here: the type check decides before the lengths are compared
  and before any document is touched.
\<close>

theorem setAttributes_type_check:
  "\<not> (\<exists>xs. arr = Arr xs \<and> list_all isObject xs) \<longrightarrow>
     setAttributes c arr s = (Inl TypeError, s)"
  by (cases arr) (simp_all add: setAttributes_def isObjectArray_def)

theorem setAttributes_type_check_witness:
  "setAttributes 0 (Str (js ''x'')) cat_state = (Inl TypeError, cat_state)
   \<and> setAttributes 0 Null cat_state = (Inl TypeError, cat_state)
   \<and> length (elems (Arr [Str (js ''a''), Str (js ''b'')])) = nDocs cat_state 0
   \<and> setAttributes 0 (Arr [Str (js ''a''), Str (js ''b'')]) cat_state = (Inl TypeError, cat_state)
   \<and> length (elems (Arr [Obj 0, Str (js ''a''), Obj 2])) \<noteq> nDocs cat_state 0
   \<and> setAttributes 0 (Arr [Obj 0, Str (js ''a''), Obj 2]) cat_state = (Inl TypeError, cat_state)"
  using setAttributes_type_check[of "Str (js ''x'')" 0 cat_state]
    setAttributes_type_check[of Null 0 cat_state]
    setAttributes_type_check[of "Arr [Str (js ''a''), Str (js ''b'')]" 0 cat_state]
    setAttributes_type_check[of "Arr [Obj 0, Str (js ''a''), Obj 2]" 0 cat_state]
  by (simp add: isObject_def elems_def nDocs_cat_state)

text \<open>
  Claim C3, as the code has it. For every corpus and every non-empty array \<open>xs\<close> of
  objects: if its length differs from \<open>nDocs\<close>, \<open>setAttributes\<close> raises
  \<open>Error\<close> and the store is as before; if the lengths are equal, it returns the same
  corpus, the corpora and all texts are as before, the attributes of documents outside the
  corpus are as before, and the attributes of \<open>documents[i]\<close> are \<open>xs[i]\<close> itself
  for every index \<open>i\<close> after which the same document does not stand again (so for
  every index, when the documents of the corpus are distinct objects). The empty array
  does not pass \<open>isObjectArray\<close>: for it \<open>setAttributes\<close> raises \<open>TypeError\<close>
  whatever the number of documents.
\<close>

theorem setAttributes_nonempty:
  assumes "wf_corpus s c" "list_all isObject xs" "xs \<noteq> []"
  shows "(length xs \<noteq> nDocs s c \<longrightarrow> setAttributes c (Arr xs) s = (Inl Error, s)) \<and>
    (length xs = nDocs s c \<longrightarrow>
      (\<exists>s'. setAttributes c (Arr xs) s = (Inr c, s') \<and> corpora s' = corpora s \<and>
         (\<forall>d. get_text (heap s') d = get_text (heap s) d) \<and>
         (\<forall>d. d \<notin> set (documents s c) \<longrightarrow>
            get_attributes (heap s') d = get_attributes (heap s) d) \<and>
         (\<forall>i < nDocs s c.
            (\<forall>j. i < j \<and> j < nDocs s c \<longrightarrow> documents s c ! j \<noteq> documents s c ! i) \<longrightarrow>
            get_attributes (heap s') (documents s c ! i) = xs ! i))) \<and>
    setAttributes c (Arr []) s = (Inl TypeError, s)"
proof -
  have oa: "isObjectArray (Arr xs)"
    using assms(2,3) by (simp add: isObjectArray_def)
  have "get_attributes (setAttributes_loop (documents s c) xs (heap s)) (documents s c ! i) = xs ! i"
    if "length xs = nDocs s c" "i < nDocs s c"
      "\<forall>j. i < j \<and> j < nDocs s c \<longrightarrow> documents s c ! j \<noteq> documents s c ! i" for i
    using that wf_corpus_bound[OF assms(1), of i]
    by (intro setAttributes_loop_last) (simp_all add: nDocs_def)
  then show ?thesis
    using oa by (simp add: setAttributes_def elems_def setAttributes_loop_other isObjectArray_def)
qed

theorem setAttributes_nonempty_witness:
  "wf_corpus cat_state 0 \<and> list_all isObject [Obj 2, Obj 0] \<and> length [Obj 2, Obj 0] = nDocs cat_state 0
   \<and> documents cat_state 0 = [1, 3]
   \<and> get_attributes (heap cat_state) 1 = Obj 0 \<and> get_attributes (heap cat_state) 3 = Obj 2
   \<and> fst (setAttributes 0 (Arr [Obj 2, Obj 0]) cat_state) = Inr 0
   \<and> get_attributes (heap (snd (setAttributes 0 (Arr [Obj 2, Obj 0]) cat_state))) 1 = Obj 2
   \<and> get_attributes (heap (snd (setAttributes 0 (Arr [Obj 2, Obj 0]) cat_state))) 3 = Obj 0
   \<and> get_text (heap (snd (setAttributes 0 (Arr [Obj 2, Obj 0]) cat_state))) 1
        = Str (js ''the cat. sat'')
   \<and> setAttributes 0 (Arr [Obj 0]) cat_state = (Inl Error, cat_state)"
proof -
  have docs: "documents cat_state 0 = [1, 3]"
    by (simp add: cat_state_eq documents_def deref_def)
  have a: "get_attributes (heap cat_state) 1 = Obj 0" "get_attributes (heap cat_state) 3 = Obj 2"
    "get_text (heap cat_state) 1 = Str (js ''the cat. sat'')"
    by (simp_all add: cat_state_eq get_attributes_def get_text_def deref_def)
  have o: "list_all isObject [Obj 2, Obj 0]" "list_all isObject [Obj 0]"
    by (simp_all add: isObject_def)
  let ?r = "setAttributes 0 (Arr [Obj 2, Obj 0]) cat_state"
  from setAttributes_nonempty[OF wf_cat_state o(1)] obtain s' where
    r: "?r = (Inr 0, s')"
    and t: "\<forall>d. get_text (heap s') d = get_text (heap cat_state) d"
    and at: "\<forall>i < nDocs cat_state 0.
            (\<forall>j. i < j \<and> j < nDocs cat_state 0 \<longrightarrow>
               documents cat_state 0 ! j \<noteq> documents cat_state 0 ! i) \<longrightarrow>
            get_attributes (heap s') (documents cat_state 0 ! i) = [Obj 2, Obj 0] ! i"
    by (auto simp: nDocs_cat_state)
  have "get_attributes (heap s') (documents cat_state 0 ! 0) = [Obj 2, Obj 0] ! 0"
  proof (rule at[rule_format])
    show "0 < nDocs cat_state 0" by (simp add: nDocs_cat_state)
  next
    fix j assume "0 < j \<and> j < nDocs cat_state 0"
    then have "j = 1" unfolding nDocs_cat_state by arith
    then show "documents cat_state 0 ! j \<noteq> documents cat_state 0 ! 0" by (simp add: docs)
  qed
  then have a0: "get_attributes (heap s') 1 = Obj 2" by (simp add: docs)
  have "get_attributes (heap s') (documents cat_state 0 ! 1) = [Obj 2, Obj 0] ! 1"
  proof (rule at[rule_format])
    show "1 < nDocs cat_state 0" by (simp add: nDocs_cat_state)
  next
    fix j assume "1 < j \<and> j < nDocs cat_state 0"
    then have False unfolding nDocs_cat_state by arith
    then show "documents cat_state 0 ! j \<noteq> documents cat_state 0 ! 1" ..
  qed
  then have a1: "get_attributes (heap s') 3 = Obj 0" by (simp add: docs)
  have e: "setAttributes 0 (Arr [Obj 0]) cat_state = (Inl Error, cat_state)"
    using setAttributes_nonempty[OF wf_cat_state o(2)] by (simp add: nDocs_cat_state)
  show ?thesis
    using wf_cat_state docs a o r t a0 a1 e by (simp add: nDocs_cat_state)
qed

text \<open>
  The claim C3 as stated fails for the empty sequence of attribute mappings: on a corpus
  of two documents its length differs from \<open>nDocs\<close>, and on a corpus without
  documents the lengths are equal; in both cases the call raises \<open>TypeError\<close>.
\<close>

theorem setAttributes_empty_counterexample:
  "list_all isObject [] \<and> wf_corpus cat_state 0
   \<and> length (elems (Arr [])) \<noteq> nDocs cat_state 0
   \<and> setAttributes 0 (Arr []) cat_state = (Inl TypeError, cat_state)
   \<and> wf_corpus empty_corpus_state 0
   \<and> length (elems (Arr [])) = nDocs empty_corpus_state 0
   \<and> setAttributes 0 (Arr []) empty_corpus_state = (Inl TypeError, empty_corpus_state)"
proof -
  have "wf_corpus empty_corpus_state 0" "nDocs empty_corpus_state 0 = 0"
    by (simp_all add: empty_corpus_state_eq wf_corpus_def documents_def deref_def nDocs_def)
  then show ?thesis
    by (simp add: wf_cat_state nDocs_cat_state elems_def setAttributes_def isObjectArray_def)
qed

section \<open>map\<close>

lemma isDoc_set_text:
  "isDoc s v \<Longrightarrow> isDoc (s\<lparr>heap := set_text (heap s) d t\<rparr>) v"
  by (auto simp: isDoc_def set_text_def deref_def nth_list_update split: if_splits)

lemma isDoc_corpora_update [simp]: "isDoc (s\<lparr>corpora := cs\<rparr>) v = isDoc s v"
  by (simp add: isDoc_def)

lemma isDoc_push [simp]: "isDoc (push c d s) v = isDoc s v"
  by (simp add: push_def)

lemma addDoc_isDoc: "isDoc s (Obj d) \<Longrightarrow> addDoc c (Obj d) s = (Inr (), push c d s)"
  by (simp add: addDoc_def isString_def ref_of_def)

lemma documents_push:
  "c < length (corpora s) \<Longrightarrow>
   documents (push c d s) c' = (if c' = c then documents s c @ [d] else documents s c')"
  by (simp add: push_def documents_def deref_def)

lemma map_loop_eq:
  assumes "ret < length (corpora s)" "list_all (\<lambda>d. isDoc s (Obj d)) ds"
  shows "map_loop (\<lambda>t a i. Inr (fn t a i)) ret ds i s =
     (None, s\<lparr>heap := mutate_texts fn ds i (heap s),
               corpora := (corpora s)[ret := documents s ret @ ds]\<rparr>)"
  using assms
proof (induction ds arbitrary: i s)
  case Nil
  then show ?case by (simp add: documents_def deref_def)
next
  case (Cons d ds)
  define t where "t = fn (get_text (heap s) d) (get_attributes (heap s) d) i"
  define s1 where "s1 = s\<lparr>heap := set_text (heap s) d t\<rparr>"
  define s2 where "s2 = push ret d s1"
  have d1: "isDoc s1 (Obj d)" and ds1: "list_all (\<lambda>d. isDoc s1 (Obj d)) ds"
    using Cons.prems(2) by (simp_all add: s1_def isDoc_set_text list_all_iff)
  have r2: "ret < length (corpora s2)"
    using Cons.prems(1) by (simp add: s2_def s1_def push_def)
  have ds2: "list_all (\<lambda>d. isDoc s2 (Obj d)) ds"
    using ds1 by (simp add: s2_def)
  have "map_loop (\<lambda>t a i. Inr (fn t a i)) ret (d # ds) i s =
          map_loop (\<lambda>t a i. Inr (fn t a i)) ret ds (Suc i) s2"
    using addDoc_isDoc[OF d1, of ret] by (simp add: t_def s1_def s2_def)
  also have "\<dots> = (None, s2\<lparr>heap := mutate_texts fn ds (Suc i) (heap s2),
               corpora := (corpora s2)[ret := documents s2 ret @ ds]\<rparr>)"
    by (rule Cons.IH[OF r2 ds2])
  also have "s2\<lparr>heap := mutate_texts fn ds (Suc i) (heap s2),
               corpora := (corpora s2)[ret := documents s2 ret @ ds]\<rparr>
     = s\<lparr>heap := mutate_texts fn (d # ds) i (heap s),
               corpora := (corpora s)[ret := documents s ret @ d # ds]\<rparr>"
    using Cons.prems(1)
    by (simp add: s2_def s1_def push_def t_def documents_def deref_def)
  finally show ?case .
qed

lemma get_attributes_mutate_texts [simp]:
  "get_attributes (mutate_texts fn ds i h) d = get_attributes h d"
  by (induction ds arbitrary: i h) simp_all

lemma length_mutate_texts [simp]: "length (mutate_texts fn ds i h) = length h"
  by (induction ds arbitrary: i h) simp_all

lemma mutate_texts_other:
  "d \<notin> set ds \<Longrightarrow> get_text (mutate_texts fn ds i h) d = get_text h d"
  by (induction ds arbitrary: i h) (simp_all add: get_text_set_text)

lemma mutate_texts_once:
  assumes "k < length ds" "ds ! k < length h" "\<forall>j < length ds. j \<noteq> k \<longrightarrow> ds ! j \<noteq> ds ! k"
  shows "get_text (mutate_texts fn ds i h) (ds ! k) =
           Str (fn (get_text h (ds ! k)) (get_attributes h (ds ! k)) (i + k))"
  using assms
proof (induction ds arbitrary: i h k)
  case Nil then show ?case by simp
next
  case (Cons d ds)
  show ?case
  proof (cases k)
    case 0
    have "d \<notin> set ds"
    proof
      assume "d \<in> set ds"
      then obtain j where "j < length ds" "ds ! j = d" by (auto simp: in_set_conv_nth)
      then show False using Cons.prems(3)[rule_format, of "Suc j"] 0 by simp
    qed
    then show ?thesis
      using Cons.prems(2) 0 by (simp add: mutate_texts_other get_text_set_text)
  next
    case (Suc k')
    have ne: "d \<noteq> ds ! k'"
      using Cons.prems(3)[rule_format, of 0] Suc by simp
    have "\<forall>j < length ds. j \<noteq> k' \<longrightarrow> ds ! j \<noteq> ds ! k'"
    proof (intro allI impI)
      fix j assume "j < length ds" "j \<noteq> k'"
      then show "ds ! j \<noteq> ds ! k'"
        using Cons.prems(3)[rule_format, of "Suc j"] Suc by simp
    qed
    then show ?thesis
      using Cons.IH[of k' "set_text h d (fn (get_text h d) (get_attributes h d) i)" "Suc i"]
        Cons.prems(1,2) Suc ne
      by (simp add: get_text_set_text)
  qed
qed

text \<open>
  Claim C5. For every corpus whose documents pass \<open>isDoc\<close> and every callback
  \<open>fn\<close> that returns a text, \<open>map( fn )\<close> returns a new Corpus, at an address
  other than the receiver's, whose documents are the receiver's documents: the same
  references in the same order, so \<open>nDocs\<close> is the same. The receiver's documents
  array is as before. The store of objects is the result of mutating, at every index
  \<open>i\<close> in order, the text of \<open>documents[i]\<close> to \<open>fn( text, attributes, i )\<close>;
  attributes are untouched, as are documents outside the corpus. A document that stands
  at index \<open>i\<close> only ends with the text \<open>fn\<close> gives for its old text, its
  attributes and \<open>i\<close> (a document standing at several indices is rewritten once at
  each). Receiver and result hold the same objects, so both see the new texts.
\<close>

theorem map_shares_documents:
  assumes "wf_corpus s c"
  shows "\<exists>s'. map_Corpus c (\<lambda>t a i. Inr (fn t a i)) s = (Inr (length (corpora s)), s')
     \<and> length (corpora s) \<noteq> c
     \<and> corpora s' = corpora s @ [documents s c]
     \<and> documents s' (length (corpora s)) = documents s c
     \<and> documents s' c = documents s c
     \<and> nDocs s' (length (corpora s)) = nDocs s c
     \<and> heap s' = mutate_texts fn (documents s c) 0 (heap s)
     \<and> (\<forall>d. get_attributes (heap s') d = get_attributes (heap s) d)
     \<and> (\<forall>d. d \<notin> set (documents s c) \<longrightarrow> get_text (heap s') d = get_text (heap s) d)
     \<and> (\<forall>i < nDocs s c.
          (\<forall>j < nDocs s c. j \<noteq> i \<longrightarrow> documents s c ! j \<noteq> documents s c ! i) \<longrightarrow>
          get_text (heap s') (documents s c ! i)
            = Str (fn (get_text (heap s) (documents s c ! i))
                      (get_attributes (heap s) (documents s c ! i)) i))"
proof -
  let ?L = "length (corpora s)" and ?ds = "documents s c"
  define s1 where "s1 = s\<lparr>corpora := corpora s @ [[]]\<rparr>"
  have c: "c < ?L" using assms by (simp add: wf_corpus_def)
  have new: "Corpus Undefined s = (Inr ?L, s1)"
    by (simp add: Corpus_def init_def s1_def)
  have ds1: "documents s1 c = ?ds" "documents s1 ?L = []"
    using c by (simp_all add: s1_def documents_def deref_def nth_append)
  have "list_all (\<lambda>d. isDoc s1 (Obj d)) ?ds"
    using assms by (simp add: wf_corpus_def s1_def)
  then have loop: "map_loop (\<lambda>t a i. Inr (fn t a i)) ?L ?ds 0 s1 =
     (None, s1\<lparr>heap := mutate_texts fn ?ds 0 (heap s1),
               corpora := (corpora s1)[?L := documents s1 ?L @ ?ds]\<rparr>)"
    by (intro map_loop_eq) (simp add: s1_def)
  define s' where "s' = s\<lparr>heap := mutate_texts fn ?ds 0 (heap s), corpora := corpora s @ [?ds]\<rparr>"
  have res: "map_Corpus c (\<lambda>t a i. Inr (fn t a i)) s = (Inr ?L, s')"
    by (simp add: map_Corpus_def new ds1 loop) (simp add: s1_def s'_def)
  have once: "get_text (heap s') (?ds ! i) =
      Str (fn (get_text (heap s) (?ds ! i)) (get_attributes (heap s) (?ds ! i)) i)"
    if "i < nDocs s c" "\<forall>j < nDocs s c. j \<noteq> i \<longrightarrow> ?ds ! j \<noteq> ?ds ! i" for i
    using that wf_corpus_bound[OF assms, of i]
      mutate_texts_once[of i ?ds "heap s" fn 0]
    by (simp add: s'_def nDocs_def)
  show ?thesis
    using c once
    by (intro exI[of _ s']) (simp add: res s'_def documents_def deref_def nth_append nDocs_def
        mutate_texts_other)
qed

theorem map_shares_documents_witness:
  "wf_corpus cat_state 0
   \<and> fst (map_Corpus 0 (\<lambda>t a i. Inr (js ''x'' @ str_of t)) cat_state) = Inr 1
   \<and> documents (snd (map_Corpus 0 (\<lambda>t a i. Inr (js ''x'' @ str_of t)) cat_state)) 1 = [1, 3]
   \<and> documents (snd (map_Corpus 0 (\<lambda>t a i. Inr (js ''x'' @ str_of t)) cat_state)) 0 = [1, 3]
   \<and> get_text (heap (snd (map_Corpus 0 (\<lambda>t a i. Inr (js ''x'' @ str_of t)) cat_state))) 1
        = Str (js ''xthe cat. sat'')
   \<and> get_text (heap (snd (map_Corpus 0 (\<lambda>t a i. Inr (js ''x'' @ str_of t)) cat_state))) 3
        = Str (js ''xa category item'')"
proof -
  let ?f = "\<lambda>(t::jsval) (a::jsval) (i::nat). js ''x'' @ str_of t"
  from map_shares_documents[OF wf_cat_state, of ?f] obtain s' where
    r: "map_Corpus 0 (\<lambda>t a i. Inr (?f t a i)) cat_state = (Inr (length (corpora cat_state)), s')"
    and d: "documents s' (length (corpora cat_state)) = documents cat_state 0"
      "documents s' 0 = documents cat_state 0"
    and t: "\<forall>i < nDocs cat_state 0.
          (\<forall>j < nDocs cat_state 0. j \<noteq> i \<longrightarrow> documents cat_state 0 ! j \<noteq> documents cat_state 0 ! i) \<longrightarrow>
          get_text (heap s') (documents cat_state 0 ! i)
            = Str (?f (get_text (heap cat_state) (documents cat_state 0 ! i))
                      (get_attributes (heap cat_state) (documents cat_state 0 ! i)) i)"
    by blast
  have l: "length (corpora cat_state) = 1" by (simp add: cat_state_eq)
  have dist: "\<forall>j < nDocs cat_state 0. j \<noteq> i \<longrightarrow> documents cat_state 0 ! j \<noteq> documents cat_state 0 ! i"
    if "i < nDocs cat_state 0" for i
    using that by (auto simp: nDocs_cat_state documents_cat_state less_Suc_eq numeral_2_eq_2)
  have t0: "get_text (heap s') 1 = Str (js ''xthe cat. sat'')"
    using t[rule_format, of 0] dist[of 0]
    by (simp add: nDocs_cat_state documents_cat_state) (simp add: cat_state_eq get_text_def deref_def str_of_def js_def)
  have t1: "get_text (heap s') 3 = Str (js ''xa category item'')"
    using t[rule_format, of 1] dist[of 1]
    by (simp add: nDocs_cat_state documents_cat_state) (simp add: cat_state_eq get_text_def deref_def str_of_def js_def)
  show ?thesis
    using wf_cat_state r d t0 t1 by (simp add: l documents_cat_state)
qed

section \<open>groupBy\<close>

subsection \<open>The mapping of the spec\<close>

lemma sel_Nil [simp]: "sel k [] ks = []" "sel k ds [] = []"
  by (simp_all add: sel_def)

lemma sel_Cons [simp]:
  "sel k (d # ds) (k' # ks) = (if k' = k then d # sel k ds ks else sel k ds ks)"
  by (simp add: sel_def)


lemma map_fst_add_group:
  "map fst (add_group k d gs) = (if k \<in> fst ` set gs then map fst gs else map fst gs @ [k])"
proof -
  have "map fst (map (\<lambda>(k', ds). (k', if k' = k then ds @ [d] else ds)) gs) = map fst gs"
    by (induction gs) auto
  then show ?thesis by (simp add: add_group_def)
qed

lemma map_of_map_key:
  "map_of (map (\<lambda>(k', ds). (k', if k' = k then ds @ [d] else ds)) gs) k' =
     map_option (\<lambda>ds. if k' = k then ds @ [d] else ds) (map_of gs k')"
  by (induction gs) auto

lemma map_of_in_keys: "k \<in> fst ` set gs \<Longrightarrow> \<exists>v. map_of gs k = Some v"
  by (cases "map_of gs k") (simp_all add: map_of_eq_None_iff)

lemma map_of_snoc:
  "map_of (gs @ [(k, v)]) k' = (case map_of gs k' of Some x \<Rightarrow> Some x | None \<Rightarrow> if k' = k then Some v else None)"
  by (induction gs) auto

lemma map_of_add_group:
  "map_of (add_group k d gs) k' =
     (if k' = k then Some ((case map_of gs k of Some old \<Rightarrow> old | None \<Rightarrow> []) @ [d])
      else map_of gs k')"
proof (cases "k \<in> fst ` set gs")
  case False
  then have none: "map_of gs k = None" by (simp add: map_of_eq_None_iff)
  have "map_of (add_group k d gs) k' = map_of (gs @ [(k, [d])]) k'"
    using False by (simp add: add_group_def)
  also have "\<dots> = (if k' = k then Some [d] else map_of gs k')"
    unfolding map_of_snoc using none by (cases "map_of gs k'") auto
  finally show ?thesis using none by simp
next
  case True
  from map_of_in_keys[OF True] obtain old where old: "map_of gs k = Some old" ..
  have "map_of (add_group k d gs) k' =
      map_of (map (\<lambda>(k', ds). (k', if k' = k then ds @ [d] else ds)) gs) k'"
    using True by (simp add: add_group_def)
  also have "\<dots> = map_option (\<lambda>ds. if k' = k then ds @ [d] else ds) (map_of gs k')"
    by (simp only: map_of_map_key)
  finally show ?thesis using old by (cases "map_of gs k'") auto
qed

lemma keys_add_group: "fst ` set (add_group k d gs) = insert k (fst ` set gs)"
proof -
  have "set (map fst (add_group k d gs)) = insert k (set (map fst gs))"
    by (auto simp: map_fst_add_group)
  then show ?thesis by simp
qed

lemma distinct_add_group:
  "distinct (map fst gs) \<Longrightarrow> distinct (map fst (add_group k d gs))"
  by (simp add: map_fst_add_group)

lemma spec_groupBy_keys:
  "length ds = length ks \<Longrightarrow> distinct (map fst gs) \<Longrightarrow>
   distinct (map fst (spec_groupBy ds ks gs)) \<and>
   fst ` set (spec_groupBy ds ks gs) = fst ` set gs \<union> set ks"
proof (induction ds arbitrary: ks gs)
  case Nil
  then show ?case by simp
next
  case (Cons d ds)
  then obtain k ks' where ks: "ks = k # ks'" "length ds = length ks'"
    by (cases ks) auto
  have "distinct (map fst (spec_groupBy ds ks' (add_group k d gs))) \<and>
   fst ` set (spec_groupBy ds ks' (add_group k d gs)) = fst ` set (add_group k d gs) \<union> set ks'"
    using Cons.prems ks by (intro Cons.IH) (simp_all add: distinct_add_group)
  then show ?case by (simp add: ks keys_add_group)
qed

lemma map_of_spec_groupBy:
  "length ds = length ks \<Longrightarrow>
   map_of (spec_groupBy ds ks gs) k =
     (if k \<in> fst ` set gs \<union> set ks
      then Some ((case map_of gs k of Some old \<Rightarrow> old | None \<Rightarrow> []) @ sel k ds ks)
      else None)"
proof (induction ds arbitrary: ks gs)
  case Nil
  then have ks: "ks = []" by simp
  show ?case
  proof (cases "k \<in> fst ` set gs")
    case True
    from map_of_in_keys[OF True] obtain v where "map_of gs k = Some v" ..
    then show ?thesis using True ks by simp
  next
    case False
    then show ?thesis using ks by (simp add: map_of_eq_None_iff)
  qed
next
  case (Cons d ds)
  then obtain k' ks' where ks: "ks = k' # ks'" "length ds = length ks'"
    by (cases ks) auto
  have "map_of (spec_groupBy (d # ds) (k' # ks') gs) k =
     (if k \<in> insert k' (fst ` set gs) \<union> set ks'
      then Some ((case map_of (add_group k' d gs) k of Some old \<Rightarrow> old | None \<Rightarrow> []) @ sel k ds ks')
      else None)"
    using Cons.IH[OF ks(2), of "add_group k' d gs"] by (simp add: keys_add_group)
  also have "\<dots> = (if k \<in> fst ` set gs \<union> set (k' # ks')
      then Some ((case map_of gs k of Some old \<Rightarrow> old | None \<Rightarrow> []) @ sel k (d # ds) (k' # ks'))
      else None)"
  proof (cases "k \<in> fst ` set gs")
    case True
    from map_of_in_keys[OF True] obtain v where "map_of gs k = Some v" ..
    then show ?thesis using True by (simp add: map_of_add_group)
  next
    case False
    then have "map_of gs k = None" by (simp add: map_of_eq_None_iff)
    then show ?thesis using False by (simp add: map_of_add_group)
  qed
  finally show ?case unfolding ks(1) .
qed

lemma length_keys_of [simp]: "length (keys_of key h ds i) = length ds"
  by (induction ds arbitrary: i) simp_all

lemma snd_unique:
  "distinct (map snd xs) \<Longrightarrow> (a, b) \<in> set xs \<Longrightarrow> (a', b) \<in> set xs \<Longrightarrow> a = a'"
proof (induction xs)
  case Nil then show ?case by simp
next
  case (Cons x xs)
  have "b \<in> set (map snd xs)" if "(c, b) \<in> set xs" for c
    using that by (metis in_set_zipE zip_map_fst_snd)
  then show ?case using Cons by (cases x) auto
qed

lemma map_fst_groups [simp]: "map fst (groups m s) = map fst (own m)"
  by (simp add: groups_def split_def comp_def)

lemma Corpus_doc:
  "isDoc s (Obj d) \<Longrightarrow>
   Corpus (Obj d) s = (Inr (length (corpora s)), s\<lparr>corpora := corpora s @ [[d]]\<rparr>)"
  by (simp add: Corpus_def init_def isString_def isStringArray_def ref_of_def)

lemma documents_snoc:
  "documents (s\<lparr>corpora := corpora s @ [ds]\<rparr>) g =
     (if g < length (corpora s) then documents s g
      else if g = length (corpora s) then ds else [])"
  by (simp add: documents_def deref_def nth_append)

lemma groups_new:
  assumes "list_all (\<lambda>(k, g). g < length (corpora s)) (own m)" "k0 \<notin> set (map fst (own m))"
  shows "groups (m\<lparr>own := own m @ [(k0, length (corpora s))]\<rparr>) (s\<lparr>corpora := corpora s @ [[d]]\<rparr>)
           = add_group k0 d (groups m s)"
proof -
  have "map (\<lambda>(k, g). (k, documents (s\<lparr>corpora := corpora s @ [[d]]\<rparr>) g)) (own m)
      = map (\<lambda>(k, g). (k, documents s g)) (own m)"
    using assms(1) by (induction "own m") (auto simp: list_all_iff documents_snoc)
  moreover have "k0 \<notin> fst ` set (groups m s)"
    using assms(2) map_fst_groups[of m s] by (metis set_map)
  ultimately show ?thesis
    by (simp add: groups_def add_group_def documents_snoc)
qed

lemma groups_push:
  assumes "distinct (map fst (own m))" "distinct (map snd (own m))"
    "map_of (own m) k0 = Some g0" "g0 < length (corpora s)"
  shows "groups m (push g0 d s) = add_group k0 d (groups m s)"
proof -
  have in0: "(k0, g0) \<in> set (own m)" using assms(3) by (rule map_of_SomeD)
  have iff: "g = g0 \<longleftrightarrow> k = k0" if "(k, g) \<in> set (own m)" for k g
    using that in0 eq_key_imp_eq_value[OF assms(1)] snd_unique[OF assms(2)] by metis
  have "k0 \<in> set (map fst (own m))" using in0 by force
  then have "k0 \<in> fst ` set (groups m s)"
    using map_fst_groups[of m s] by (metis set_map)
  moreover have "map (\<lambda>(k, g). (k, documents (push g0 d s) g)) (own m) =
     map (\<lambda>(k', ds). (k', if k' = k0 then ds @ [d] else ds)) (map (\<lambda>(k, g). (k, documents s g)) (own m))"
  proof -
    have "documents (push g0 d s) g = (if k = k0 then documents s g @ [d] else documents s g)"
      if "(k, g) \<in> set (own m)" for k g
      using iff[OF that] assms(4) by (auto simp: documents_push)
    then show ?thesis by auto
  qed
  ultimately show ?thesis by (simp add: groups_def add_group_def)
qed

subsection \<open>The loop\<close>

lemma map_of_None_keys: "map_of xs k = None \<longleftrightarrow> k \<notin> set (map fst xs)"
  by (simp add: map_of_eq_None_iff)

lemma refs_below:
  "list_all (\<lambda>(k, g). g < n) xs \<Longrightarrow> g \<in> set (map snd xs) \<Longrightarrow> g < n"
  by (induction xs) auto

lemma groupBy_loop_eq:
  assumes "list_all (\<lambda>d. isDoc s (Obj d)) ds" "groups_ok m s"
    "js ''__proto__'' \<notin> set (keys_of key (heap s) ds i)"
    "js ''hasOwnProperty'' \<notin> set (keys_of key (heap s) ds i)"
  shows "\<exists>m' s'. groupBy_loop (\<lambda>t a i. Inr (key t a i)) ds i m s = (Inr m', s')
     \<and> heap s' = heap s \<and> groups_ok m' s'
     \<and> groups m' s' = spec_groupBy ds (keys_of key (heap s) ds i) (groups m s)
     \<and> (\<exists>new. own m' = own m @ new \<and> list_all (\<lambda>(k, g). length (corpora s) \<le> g) new)
     \<and> length (corpora s) \<le> length (corpora s')
     \<and> (\<forall>c' < length (corpora s). c' \<notin> set (map snd (own m)) \<longrightarrow>
            documents s' c' = documents s c')"
  using assms
proof (induction ds arbitrary: i m s)
  case Nil
  then show ?case by simp
next
  case (Cons d ds)
  let ?f = "\<lambda>t a i. Inr (key t a i) :: error + jsstring"
  let ?L = "length (corpora s)"
  define k0 where "k0 = key (get_text (heap s) d) (get_attributes (heap s) d) i"
  have ks: "keys_of key (heap s) (d # ds) i = k0 # keys_of key (heap s) ds (Suc i)"
    by (simp add: k0_def)
  have k0: "k0 \<noteq> js ''__proto__''" "k0 \<noteq> js ''hasOwnProperty''"
    using Cons.prems(3,4) unfolding ks by auto
  have rest: "js ''__proto__'' \<notin> set (keys_of key (heap s) ds (Suc i))"
    "js ''hasOwnProperty'' \<notin> set (keys_of key (heap s) ds (Suc i))"
    using Cons.prems(3,4) unfolding ks by simp_all
  have d: "isDoc s (Obj d)" and ds: "list_all (\<lambda>d. isDoc s (Obj d)) ds"
    using Cons.prems(1) by simp_all
  have ok: "list_all (\<lambda>(k, g). g < ?L) (own m)" "distinct (map fst (own m))"
    "distinct (map snd (own m))" "js ''hasOwnProperty'' \<notin> set (map fst (own m))"
    "\<not> proto_replaced m"
    using Cons.prems(2) by (simp_all add: groups_ok_def)
  have hop: "map_of (own m) (js ''hasOwnProperty'') = None"
    using ok(4) by (simp add: map_of_None_keys)
  show ?case
  proof (cases "map_of (own m) k0")
    case None
    define m1 where "m1 = m\<lparr>own := own m @ [(k0, ?L)]\<rparr>"
    define s1 where "s1 = s\<lparr>corpora := corpora s @ [[d]]\<rparr>"
    have fresh: "k0 \<notin> set (map fst (own m))"
      using None by (simp add: map_of_None_keys)
    have Lnew: "?L \<notin> set (map snd (own m))"
      using refs_below[OF ok(1), of ?L] by auto
    have step: "groupBy_loop ?f (d # ds) i m s = groupBy_loop ?f ds (Suc i) m1 s1"
      using None hop k0 ok(5) Corpus_doc[OF d]
      by (simp add: k0_def[symmetric] m1_def s1_def)
    have ok1: "groups_ok m1 s1"
      using ok fresh Lnew k0(2)
      by (auto simp: groups_ok_def m1_def s1_def list_all_iff)
    have ds1: "list_all (\<lambda>d. isDoc s1 (Obj d)) ds"
      using ds by (simp add: s1_def)
    have h1: "heap s1 = heap s" by (simp add: s1_def)
    from Cons.IH[OF ds1 ok1, of "Suc i"] rest obtain m' s' new where
      r: "groupBy_loop ?f ds (Suc i) m1 s1 = (Inr m', s')"
      and h: "heap s' = heap s1" and ok': "groups_ok m' s'"
      and g: "groups m' s' = spec_groupBy ds (keys_of key (heap s1) ds (Suc i)) (groups m1 s1)"
      and n: "own m' = own m1 @ new" "list_all (\<lambda>(k, g). length (corpora s1) \<le> g) new"
      and l: "length (corpora s1) \<le> length (corpora s')"
      and fr: "\<forall>c' < length (corpora s1). c' \<notin> set (map snd (own m1)) \<longrightarrow>
            documents s' c' = documents s1 c'"
      unfolding h1 by blast
    have g1: "groups m1 s1 = add_group k0 d (groups m s)"
      unfolding m1_def s1_def using ok(1) fresh by (rule groups_new)
    have n': "own m' = own m @ ((k0, ?L) # new)"
      "list_all (\<lambda>(k, g). ?L \<le> g) ((k0, ?L) # new)"
      using n by (auto simp: m1_def s1_def list_all_iff)
    have fr': "documents s' c' = documents s c'"
      if "c' < ?L" "c' \<notin> set (map snd (own m))" for c'
    proof -
      have "documents s' c' = documents s1 c'"
        using fr that by (simp add: m1_def s1_def)
      then show ?thesis using that(1) by (simp add: s1_def documents_snoc)
    qed
    show ?thesis
      using step r h ok' g n' l fr' unfolding h1 ks g1
      by (intro exI[of _ m'] exI[of _ s']) (auto simp: s1_def)
  next
    case (Some g0)
    have in0: "g0 \<in> set (map snd (own m))"
      using map_of_SomeD[OF Some] by force
    have g0: "g0 < ?L" using refs_below[OF ok(1) in0] .
    define s1 where "s1 = push g0 d s"
    have step: "groupBy_loop ?f (d # ds) i m s = groupBy_loop ?f ds (Suc i) m s1"
      using Some hop addDoc_isDoc[OF d, of g0]
      by (simp add: k0_def[symmetric] s1_def)
    have h1: "heap s1 = heap s" and l1: "length (corpora s1) = ?L"
      by (simp_all add: s1_def push_def)
    have ok1: "groups_ok m s1"
      using Cons.prems(2) by (simp add: groups_ok_def l1)
    have ds1: "list_all (\<lambda>d. isDoc s1 (Obj d)) ds"
      using ds by (simp add: s1_def)
    from Cons.IH[OF ds1 ok1, of "Suc i"] rest obtain m' s' new where
      r: "groupBy_loop ?f ds (Suc i) m s1 = (Inr m', s')"
      and h: "heap s' = heap s1" and ok': "groups_ok m' s'"
      and g: "groups m' s' = spec_groupBy ds (keys_of key (heap s1) ds (Suc i)) (groups m s1)"
      and n: "own m' = own m @ new" "list_all (\<lambda>(k, g). length (corpora s1) \<le> g) new"
      and l: "length (corpora s1) \<le> length (corpora s')"
      and fr: "\<forall>c' < length (corpora s1). c' \<notin> set (map snd (own m)) \<longrightarrow>
            documents s' c' = documents s1 c'"
      unfolding h1 by blast
    have g1: "groups m s1 = add_group k0 d (groups m s)"
      unfolding s1_def using ok(2,3) Some g0 by (rule groups_push)
    have fr': "documents s' c' = documents s c'"
      if "c' < ?L" "c' \<notin> set (map snd (own m))" for c'
    proof -
      have "documents s' c' = documents s1 c'"
        using fr that by (simp add: l1)
      moreover have "c' \<noteq> g0" using that(2) in0 by auto
      ultimately show ?thesis using g0 by (simp add: s1_def documents_push)
    qed
    show ?thesis
      using step r h ok' g n l fr' unfolding h1 ks g1 l1
      by (intro exI[of _ m'] exI[of _ s']) auto
  qed
qed

lemma sel_mem: "d \<in> set (sel k ds ks) \<longleftrightarrow> (d, k) \<in> set (zip ds ks)"
  by (force simp: sel_def)

lemma zip_key_unique:
  assumes "distinct ds" "(d, k) \<in> set (zip ds ks)" "(d, k') \<in> set (zip ds ks)"
  shows "k = k'"
proof -
  have "distinct (map fst (zip ds ks))"
    using assms(1) by (simp add: map_fst_zip_take distinct_take)
  then show ?thesis using assms(2,3) by (rule eq_key_imp_eq_value)
qed

lemma zip_key_exists:
  assumes "length ds = length ks" "d \<in> set ds"
  shows "\<exists>k \<in> set ks. (d, k) \<in> set (zip ds ks)"
proof -
  from assms(2) obtain i where i: "i < length ds" "ds ! i = d"
    by (auto simp: in_set_conv_nth)
  then have "(d, ks ! i) \<in> set (zip ds ks)" "ks ! i \<in> set ks"
    using assms(1) by (auto simp: set_zip)
  then show ?thesis by auto
qed

lemma dup_state_eq:
  "dup_state = \<lparr>heap = [\<lparr>doc_text = None, doc_attributes = None\<rparr>,
       \<lparr>doc_text = Some (js ''x''), doc_attributes = Some (Obj 0)\<rparr>],
     corpora = [[1], [1, 1]]\<rparr>"
  by (simp add: dup_state_def empty_state_def Corpus_def init_def isString_def isStringArray_def
      isDocArray_def isArray_def isDoc_def isObject_def ref_of_def deref_def
      elems_def Doc_def str_of_def Let_def)

text \<open>
  Claim C6, as the code has it. For every corpus whose documents pass \<open>isDoc\<close> and
  every key function that gives neither \<open>__proto__\<close> nor \<open>hasOwnProperty\<close> on
  its documents, \<open>groupBy\<close> returns a mapping and mutates neither a document nor a
  corpus of the store, the receiver among them. The mapping has one group per key that
  occurs; the groups are new corpora, all different; the group of a key holds the
  documents of the positions with that key, the same references, in the order of the
  receiver, so that every position of the receiver goes to exactly one group; the union
  of the groups is the set of the receiver's documents; and when the receiver's documents
  are distinct objects, no document is in two groups. The result is the mapping
  \<open>spec_groupBy\<close> builds.
\<close>

theorem groupBy_partition:
  assumes "wf_corpus s c"
    and "js ''__proto__'' \<notin> set (keys_of key (heap s) (documents s c) 0)"
    and "js ''hasOwnProperty'' \<notin> set (keys_of key (heap s) (documents s c) 0)"
  shows "\<exists>m s'. groupBy c (\<lambda>t a i. Inr (key t a i)) s = (Inr m, s')
     \<and> heap s' = heap s
     \<and> (\<forall>c' < length (corpora s). documents s' c' = documents s c')
     \<and> distinct (map fst (own m))
     \<and> set (map fst (own m)) = set (keys_of key (heap s) (documents s c) 0)
     \<and> distinct (map snd (own m))
     \<and> list_all (\<lambda>(k, g). length (corpora s) \<le> g) (own m)
     \<and> (\<forall>(k, g) \<in> set (own m).
           documents s' g = sel k (documents s c) (keys_of key (heap s) (documents s c) 0))
     \<and> (\<Union>(k, g) \<in> set (own m). set (documents s' g)) = set (documents s c)
     \<and> (distinct (documents s c) \<longrightarrow>
          (\<forall>(k, g) \<in> set (own m). \<forall>(k', g') \<in> set (own m).
             k \<noteq> k' \<longrightarrow> set (documents s' g) \<inter> set (documents s' g') = {}))
     \<and> groups m s' = spec_groupBy (documents s c) (keys_of key (heap s) (documents s c) 0) []"
proof -
  let ?ds = "documents s c" and ?m0 = "\<lparr>own = [], proto_replaced = False\<rparr>"
  let ?ks = "keys_of key (heap s) ?ds 0"
  have docs: "list_all (\<lambda>d. isDoc s (Obj d)) ?ds"
    using assms(1) by (simp add: wf_corpus_def)
  have ok0: "groups_ok ?m0 s" by (simp add: groups_ok_def)
  from groupBy_loop_eq[OF docs ok0 assms(2,3)] obtain m s' new where
    r: "groupBy_loop (\<lambda>t a i. Inr (key t a i)) ?ds 0 ?m0 s = (Inr m, s')"
    and h: "heap s' = heap s" and ok: "groups_ok m s'"
    and g: "groups m s' = spec_groupBy ?ds ?ks (groups ?m0 s)"
    and n: "own m = own ?m0 @ new" "list_all (\<lambda>(k, g). length (corpora s) \<le> g) new"
    and fr: "\<forall>c' < length (corpora s). c' \<notin> set (map snd (own ?m0)) \<longrightarrow>
            documents s' c' = documents s c'"
    by blast
  have g0: "groups ?m0 s = []" by (simp add: groups_def)
  have len: "length ?ds = length ?ks" by simp
  have dk: "distinct (map fst (own m))" and dr: "distinct (map snd (own m))"
    using ok by (simp_all add: groups_ok_def)
  have "fst ` set (groups m s') = set ?ks"
    using spec_groupBy_keys[OF len, of "[]"] by (simp add: g g0)
  then have keys: "fst ` set (own m) = set ?ks"
    using map_fst_groups[of m s'] by (metis set_map)
  have grp: "documents s' g = sel k ?ds ?ks" if "(k, g) \<in> set (own m)" for k g
  proof -
    have "(k, documents s' g) \<in> set (groups m s')"
      using that by (force simp: groups_def)
    moreover have "distinct (map fst (groups m s'))" using dk by simp
    ultimately have "map_of (groups m s') k = Some (documents s' g)"
      by (simp add: map_of_is_SomeI)
    then show ?thesis
      using map_of_spec_groupBy[OF len, of "[]" k] by (simp add: g g0 split: if_splits)
  qed
  have union: "(\<Union>(k, g) \<in> set (own m). set (documents s' g)) = set ?ds"
  proof (intro set_eqI iffI)
    fix d assume "d \<in> (\<Union>(k, g) \<in> set (own m). set (documents s' g))"
    then obtain k g where "(k, g) \<in> set (own m)" "d \<in> set (documents s' g)" by auto
    then have "(d, k) \<in> set (zip ?ds ?ks)" by (simp add: grp sel_mem)
    then show "d \<in> set ?ds" by (rule set_zip_leftD)
  next
    fix d assume "d \<in> set ?ds"
    from zip_key_exists[OF len this] obtain k where k: "k \<in> set ?ks" "(d, k) \<in> set (zip ?ds ?ks)"
      by auto
    then have "k \<in> fst ` set (own m)" by (simp add: keys)
    then obtain g where kg: "(k, g) \<in> set (own m)" by force
    then have "d \<in> set (documents s' g)" using k(2) by (simp add: grp sel_mem)
    then show "d \<in> (\<Union>(k, g) \<in> set (own m). set (documents s' g))"
      using kg by auto
  qed
  have disj: "set (documents s' g) \<inter> set (documents s' g') = {}"
    if "distinct ?ds" "(k, g) \<in> set (own m)" "(k', g') \<in> set (own m)" "k \<noteq> k'" for k g k' g'
  proof (rule ccontr)
    assume "set (documents s' g) \<inter> set (documents s' g') \<noteq> {}"
    then obtain d where "d \<in> set (documents s' g)" "d \<in> set (documents s' g')" by auto
    then have "(d, k) \<in> set (zip ?ds ?ks)" "(d, k') \<in> set (zip ?ds ?ks)"
      using that(2,3) by (simp_all add: grp sel_mem)
    then have "k = k'" by (rule zip_key_unique[OF that(1)])
    then show False using that(4) by simp
  qed
  have disj': "distinct ?ds \<longrightarrow>
          (\<forall>(k, g) \<in> set (own m). \<forall>(k', g') \<in> set (own m).
             k \<noteq> k' \<longrightarrow> set (documents s' g) \<inter> set (documents s' g') = {})"
  proof (intro impI)
    assume dist: "distinct ?ds"
    have "set (documents s' (snd x)) \<inter> set (documents s' (snd y)) = {}"
      if "x \<in> set (own m)" "y \<in> set (own m)" "fst x \<noteq> fst y" for x y
      using disj[OF dist, of "fst x" "snd x" "fst y" "snd y"] that by simp
    then show "\<forall>(k, g) \<in> set (own m). \<forall>(k', g') \<in> set (own m).
             k \<noteq> k' \<longrightarrow> set (documents s' g) \<inter> set (documents s' g') = {}"
      by (simp add: case_prod_unfold)
  qed
  have grp': "\<forall>(k, g) \<in> set (own m). documents s' g = sel k ?ds ?ks"
    using grp by auto
  have res: "groupBy c (\<lambda>t a i. Inr (key t a i)) s = (Inr m, s')"
    using r by (simp add: groupBy_def)
  show ?thesis
    using res h fr dk keys dr n grp' union disj' g
    by (intro exI[of _ m] exI[of _ s']) (simp add: g0)
qed

theorem groupBy_partition_witness:
  "wf_corpus cat_state 0 \<and> distinct (documents cat_state 0)
   \<and> keys_of (\<lambda>t a i. take 1 (str_of t)) (heap cat_state) (documents cat_state 0) 0
        = [js ''t'', js ''a'']
   \<and> (\<exists>m s'. groupBy 0 (\<lambda>t a i. Inr (take 1 (str_of t))) cat_state = (Inr m, s')
        \<and> heap s' = heap cat_state \<and> documents s' 0 = documents cat_state 0
        \<and> groups m s' = [(js ''t'', [1]), (js ''a'', [3])]
        \<and> (\<forall>(k, g) \<in> set (own m). \<forall>(k', g') \<in> set (own m).
             k \<noteq> k' \<longrightarrow> set (documents s' g) \<inter> set (documents s' g') = {}))"
proof -
  let ?K = "\<lambda>(t::jsval) (a::jsval) (i::nat). take 1 (str_of t)"
  have ks: "keys_of ?K (heap cat_state) (documents cat_state 0) 0 = [js ''t'', js ''a'']"
    by (simp add: documents_cat_state) (simp add: cat_state_eq get_text_def deref_def str_of_def js_def)
  have np: "js ''__proto__'' \<notin> set (keys_of ?K (heap cat_state) (documents cat_state 0) 0)"
    and nh: "js ''hasOwnProperty'' \<notin> set (keys_of ?K (heap cat_state) (documents cat_state 0) 0)"
    unfolding ks by (simp_all add: js_def)
  have dist: "distinct (documents cat_state 0)" by (simp add: documents_cat_state)
  have l: "0 < length (corpora cat_state)" by (simp add: cat_state_eq)
  from groupBy_partition[OF wf_cat_state np nh] obtain m s' where
    r: "groupBy 0 (\<lambda>t a i. Inr (?K t a i)) cat_state = (Inr m, s')"
    and h: "heap s' = heap cat_state"
    and fr: "\<forall>c' < length (corpora cat_state). documents s' c' = documents cat_state c'"
    and dj: "distinct (documents cat_state 0) \<longrightarrow>
          (\<forall>(k, g) \<in> set (own m). \<forall>(k', g') \<in> set (own m).
             k \<noteq> k' \<longrightarrow> set (documents s' g) \<inter> set (documents s' g') = {})"
    and g: "groups m s' = spec_groupBy (documents cat_state 0)
               (keys_of ?K (heap cat_state) (documents cat_state 0) 0) []"
    by blast
  have g': "groups m s' = [(js ''t'', [1]), (js ''a'', [3])]"
    unfolding g ks by (simp add: documents_cat_state add_group_def js_def)
  show ?thesis
    using wf_cat_state dist ks r h fr l dj g' by auto
qed

text \<open>
  The claim C6 as stated fails when the receiver holds one document object at two
  positions and the key depends on the index: the document is then in two groups.
\<close>

theorem groupBy_duplicate_counterexample:
  "wf_corpus dup_state 1 \<and> documents dup_state 1 = [1, 1]
   \<and> groupBy 1 (\<lambda>t a i. Inr (if i = 0 then js ''a'' else js ''b'')) dup_state
       = (Inr \<lparr>own = [(js ''a'', 2), (js ''b'', 3)], proto_replaced = False\<rparr>,
          dup_state\<lparr>corpora := [[1], [1, 1], [1], [1]]\<rparr>)
   \<and> documents (dup_state\<lparr>corpora := [[1], [1, 1], [1], [1]]\<rparr>) 2 = [1]
   \<and> documents (dup_state\<lparr>corpora := [[1], [1, 1], [1], [1]]\<rparr>) 3 = [1]"
  by (simp add: dup_state_eq wf_corpus_def documents_def deref_def isDoc_def isObject_def
      ref_of_def groupBy_def get_text_def get_attributes_def js_def Corpus_def init_def
      isString_def isStringArray_def)

text \<open>
  The two keys the theorem leaves out: with \<open>__proto__\<close> the documents end in no
  group, with \<open>hasOwnProperty\<close> the second call of \<open>corpora.hasOwnProperty\<close>
  throws.
\<close>

lemma groupBy_special_keys:
  "fst (groupBy 0 (\<lambda>t a i. Inr (js ''__proto__'')) cat_state)
     = Inr \<lparr>own = [], proto_replaced = True\<rparr>
   \<and> fst (groupBy 0 (\<lambda>t a i. Inr (js ''hasOwnProperty'')) cat_state) = Inl TypeError"
  by (simp add: cat_state_eq documents_def deref_def isDoc_def isObject_def
      ref_of_def groupBy_def get_text_def get_attributes_def js_def Corpus_def init_def
      isString_def isStringArray_def)

section \<open>What a match of removeWords deletes\<close>

lemma match_word_sound:
  "match_word H ci x u \<Longrightarrow>
     \<exists>x' dl rest. u = x' @ dl # rest \<and> list_all2 (char_eq H ci) x x' \<and> delim H ci dl"
proof (induction x arbitrary: u)
  case Nil
  then show ?case by (cases u) auto
next
  case (Cons a x)
  then obtain c u' where u: "u = c # u'" "char_eq H ci a c" "match_word H ci x u'"
    by (cases u) auto
  from Cons.IH[OF u(3)] obtain x' dl rest where
    "u' = x' @ dl # rest" "list_all2 (char_eq H ci) x x'" "delim H ci dl" by blast
  then have "u = (c # x') @ dl # rest \<and> list_all2 (char_eq H ci) (a # x) (c # x') \<and> delim H ci dl"
    using u by simp
  then show ?case by blast
qed

lemma backtrack_sound:
  "backtrack H ci x j t = Some m \<Longrightarrow>
     \<exists>k. 0 < k \<and> k \<le> j \<and> match_word H ci x (drop k t) \<and> m = k + length x + 1"
proof (induction j)
  case 0 then show ?case by simp
next
  case (Suc j)
  show ?case
  proof (cases "match_word H ci x (drop (Suc j) t)")
    case True
    then show ?thesis using Suc.prems by (intro exI[of _ "Suc j"]) simp
  next
    case False
    then have "backtrack H ci x j t = Some m" using Suc.prems by simp
    from Suc.IH[OF this] show ?thesis by (auto intro: le_SucI)
  qed
qed

lemma match_at_sound:
  assumes "match_at H ci x t = Some m"
  shows "\<exists>ds x' dl rest. t = ds @ x' @ dl # rest \<and> ds \<noteq> [] \<and> list_all (delim H ci) ds \<and>
     list_all2 (char_eq H ci) x x' \<and> delim H ci dl \<and> m = length (ds @ x' @ [dl])"
proof -
  let ?run = "takeWhile (delim H ci) t"
  from assms obtain k where k: "0 < k" "k \<le> length ?run" "match_word H ci x (drop k t)"
    "m = k + length x + 1"
    using backtrack_sound[of H ci x "length ?run" t m] by (auto simp: match_at_def)
  from match_word_sound[OF k(3)] obtain x' dl rest where
    r: "drop k t = x' @ dl # rest" "list_all2 (char_eq H ci) x x'" "delim H ci dl" by blast
  have kt: "k \<le> length t"
    using k(2) length_takeWhile_le[of "delim H ci" t] by (rule le_trans)
  have "take k t = take k ?run"
    using k(2) by (metis append_eq_conv_conj takeWhile_dropWhile_id take_all_iff take_append
        diff_is_0_eq' take_0 append_Nil2)
  then have "list_all (delim H ci) (take k t)"
    by (metis list_all_iff in_set_takeD set_takeWhileD)
  moreover have "t = take k t @ x' @ dl # rest"
    using r(1) by (metis append_take_drop_id)
  moreover have "take k t \<noteq> []" using k(1) kt by (cases t) auto
  moreover have "length x' = length x" using r(2) by (simp add: list_all2_lengthD)
  moreover have "length (take k t) = k" using kt by simp
  ultimately show ?thesis
    using r(2,3) k(4)
    by (intro exI[of _ "take k t"] exI[of _ x'] exI[of _ dl] exI[of _ rest]) simp
qed

lemma replace_all_match:
  assumes "match_at H ci x t = Some m"
  shows "replace_all H ci x t = replace_all H ci x (drop m t)"
proof (cases t)
  case Nil
  then show ?thesis using assms by (simp add: match_at_def)
next
  case (Cons c cs)
  then show ?thesis using assms by simp
qed

lemma is_space_delim: "is_space c \<Longrightarrow> delim H ci c"
  by (auto simp: delim_def is_space_def list_ex_iff)

lemma match_at_no_delim: "\<not> delim H ci c \<Longrightarrow> match_at H ci x (c # cs) = None"
  by (simp add: match_at_def)

lemma replace_all_prefix:
  "list_all (\<lambda>c. \<not> delim H ci c) w \<Longrightarrow>
   replace_all H ci x (w @ r) = w @ replace_all H ci x r"
  by (induction w) (simp_all add: match_at_no_delim)

lemma replace_all_suffix:
  assumes "list_all (\<lambda>c. \<not> delim H ci c) w"
  shows "\<exists>p'. replace_all H ci x (p @ w) = p' @ w"
proof (induction "length p" arbitrary: p rule: less_induct)
  case less
  show ?case
  proof (cases p)
    case Nil
    then show ?thesis using replace_all_prefix[OF assms, of x "[]"] by simp
  next
    case (Cons c cs)
    show ?thesis
    proof (cases "match_at H ci x (p @ w)")
      case None
      from less[of cs] Cons obtain p' where "replace_all H ci x (cs @ w) = p' @ w" by auto
      then show ?thesis using None Cons by (intro exI[of _ "c # p'"]) simp
    next
      case (Some m)
      from match_at_sound[OF Some] obtain ds x' dl rest where
        t: "p @ w = ds @ x' @ dl # rest" "delim H ci dl" "m = length (ds @ x' @ [dl])" by blast
      have m: "0 < m" using t(3) by simp
      have "m \<le> length p"
      proof (rule ccontr)
        assume "\<not> m \<le> length p"
        then have lt: "length p \<le> m - 1" "m - 1 < length (p @ w)"
          using t(1,3) by (auto simp: not_le)
        have "(p @ w) ! (m - 1) = dl"
          using t(1,3) by (simp add: nth_append)
        moreover have "(p @ w) ! (m - 1) \<in> set w"
          using lt by (simp add: nth_append)
        ultimately show False using assms t(2) by (auto simp: list_all_iff)
      qed
      then have d: "drop m (p @ w) = drop m p @ w" by simp
      have "length (drop m p) < length p" using m Cons by simp
      from less[OF this] obtain p' where "replace_all H ci x (drop m p @ w) = p' @ w" by auto
      then show ?thesis using replace_all_match[OF Some] d by (intro exI[of _ p']) simp
    qed
  qed
qed

lemma rw_prefix:
  assumes "list_all (\<lambda>c. \<not> delim H ci c) w"
  shows "\<exists>r'. rw H ci ws (Str (w @ r)) = w @ r'"
  by (induction ws arbitrary: r) (simp_all add: rw_def str_of_def replace_all_prefix[OF assms])

lemma rw_suffix:
  assumes "list_all (\<lambda>c. \<not> delim H ci c) w"
  shows "\<exists>p'. rw H ci ws (Str (p @ w)) = p' @ w"
proof (induction ws arbitrary: p)
  case Nil
  then show ?case by (simp add: rw_def str_of_def)
next
  case (Cons x ws)
  from replace_all_suffix[OF assms, of x p] obtain p1 where
    "replace_all H ci x (p @ w) = p1 @ w" by blast
  then show ?case using Cons[of p1] by (simp add: rw_def str_of_def)
qed

lemma collapse_prefix:
  "list_all (\<lambda>c. \<not> is_space c) w \<Longrightarrow> collapse (w @ r) = w @ collapse r"
proof (induction w)
  case Nil then show ?case by simp
next
  case (Cons c w)
  then show ?case by (cases "w @ r") simp_all
qed

lemma dropWhile_suffix:
  assumes "w \<noteq> []" "\<not> P (hd w)"
  shows "\<exists>p'. dropWhile P (p @ w) = p' @ w \<and> length p' \<le> length p"
proof (induction p)
  case Nil
  then show ?case using assms by (cases w) auto
next
  case (Cons c p)
  then show ?case by (cases "P c") (auto intro: le_SucI exI[of _ "c # p"])
qed

lemma collapse_suffix:
  assumes "w \<noteq> []" "list_all (\<lambda>c. \<not> is_space c) w"
  shows "\<exists>p'. collapse (p @ w) = p' @ w"
proof (induction "length p" arbitrary: p rule: less_induct)
  case less
  have hd: "\<not> is_space (hd w)" using assms by (cases w) auto
  show ?case
  proof (cases p)
    case Nil
    then show ?thesis using collapse_prefix[OF assms(2), of "[]"] by simp
  next
    case (Cons c cs)
    show ?thesis
    proof (cases cs)
      case Nil
      obtain d ws where w: "w = d # ws" "\<not> is_space d" using assms by (cases w) auto
      have "collapse (d # ws) = d # ws"
        using collapse_prefix[OF assms(2), of "[]"] w by simp
      then show ?thesis using Cons Nil w by (intro exI[of _ "[c]"]) simp
    next
      case (Cons d cs')
      show ?thesis
      proof (cases "is_space c \<and> is_space d")
        case True
        from dropWhile_suffix[where P = is_space and p = cs', OF assms(1) hd] obtain p1 where
          p1: "dropWhile is_space (cs' @ w) = p1 @ w" "length p1 \<le> length cs'" by blast
        then have "length p1 < length p" using \<open>p = c # cs\<close> Cons by simp
        from less[OF this] obtain p' where "collapse (p1 @ w) = p' @ w" by blast
        then show ?thesis
          using True \<open>p = c # cs\<close> Cons p1 by (intro exI[of _ "32 # p'"]) simp
      next
        case False
        have "length cs < length p" using \<open>p = c # cs\<close> by simp
        from less[OF this] obtain p' where "collapse (cs @ w) = p' @ w" by blast
        then show ?thesis
          using False \<open>p = c # cs\<close> Cons by (intro exI[of _ "c # p'"]) auto
      qed
    qed
  qed
qed

lemma str_trim_prefix:
  assumes "w \<noteq> []" "list_all (\<lambda>c. \<not> is_space c) w"
  shows "\<exists>r'. str_trim (w @ r) = w @ r'"
proof -
  have hd: "\<not> is_space (hd w)" using assms by (cases w) auto
  have lst: "\<not> is_space (hd (rev w))" "rev w \<noteq> []"
    using assms by (simp_all add: hd_rev list_all_iff)
  have 1: "dropWhile is_space (w @ r) = w @ r"
    using assms(1) hd by (cases w) auto
  from dropWhile_suffix[where P = is_space and p = "rev r", OF lst(2,1)] obtain z where
    "dropWhile is_space (rev r @ rev w) = z @ rev w" by blast
  then show ?thesis by (simp add: str_trim_def 1)
qed

lemma str_trim_suffix:
  assumes "w \<noteq> []" "list_all (\<lambda>c. \<not> is_space c) w"
  shows "\<exists>p'. str_trim (p @ w) = p' @ w"
proof -
  have hd: "\<not> is_space (hd w)" using assms by (cases w) auto
  from dropWhile_suffix[where P = is_space and p = p, OF assms(1) hd] obtain p1 where
    1: "dropWhile is_space (p @ w) = p1 @ w" by blast
  have "\<not> is_space (hd (rev w @ rev p1))"
    using assms by (simp add: hd_append hd_rev list_all_iff)
  then have "dropWhile is_space (rev w @ rev p1) = rev w @ rev p1"
    using assms(1) by (intro dropWhile_fixed) simp
  then show ?thesis by (simp add: str_trim_def 1)
qed

lemma str_clean_prefix:
  assumes "w \<noteq> []" "list_all (\<lambda>c. \<not> is_space c) w"
  shows "\<exists>r'. str_clean (w @ r) = w @ r'"
  using str_trim_prefix[OF assms, of r] by (auto simp: str_clean_def collapse_prefix[OF assms(2)])

lemma str_clean_suffix:
  assumes "w \<noteq> []" "list_all (\<lambda>c. \<not> is_space c) w"
  shows "\<exists>p'. str_clean (p @ w) = p' @ w"
  using str_trim_suffix[OF assms, of p] collapse_suffix[OF assms] by (auto simp: str_clean_def)

lemma edge_state_eq:
  "edge_state = \<lparr>heap = [\<lparr>doc_text = None, doc_attributes = None\<rparr>,
       \<lparr>doc_text = Some (js ''cat and cat and cat''), doc_attributes = Some (Obj 0)\<rparr>,
       \<lparr>doc_text = None, doc_attributes = None\<rparr>,
       \<lparr>doc_text = Some (js ''the cat sat''), doc_attributes = Some (Obj 2)\<rparr>],
     corpora = [[1, 3]]\<rparr>"
  by (simp add: edge_state_def empty_state_def Corpus_def init_def isString_def isStringArray_def
      elems_def Doc_def str_of_def Let_def)

lemma wf_edge_state: "wf_corpus edge_state 0"
  by (simp add: edge_state_eq wf_corpus_def documents_def deref_def isDoc_def isObject_def
      ref_of_def)

lemma no_delim_no_space:
  "list_all (\<lambda>c. \<not> delim H ci c) w \<Longrightarrow> list_all (\<lambda>c. \<not> is_space c) w"
  by (auto simp: list_all_iff dest: is_space_delim)

lemma join_state_eq:
  "join_state = \<lparr>heap = [\<lparr>doc_text = None, doc_attributes = None\<rparr>,
       \<lparr>doc_text = Some (js ''a cat cat b''), doc_attributes = Some (Obj 0)\<rparr>],
     corpora = [[1]]\<rparr>"
  by (simp add: join_state_def empty_state_def Corpus_def init_def isString_def
      Doc_def str_of_def Let_def)

lemma start_state_eq:
  "start_state = \<lparr>heap = [\<lparr>doc_text = None, doc_attributes = None\<rparr>,
       \<lparr>doc_text = Some (js ''cat sat''), doc_attributes = Some (Obj 0)\<rparr>],
     corpora = [[1]]\<rparr>"
  by (simp add: start_state_def empty_state_def Corpus_def init_def isString_def
      Doc_def str_of_def Let_def)

lemma split_bar_zzz_cat: "split_bar (js ''zzz|cat'') = [js ''zzz'', js ''cat'']"
  by (simp add: js_def)

lemma RegExp_zzz_cat:
  "RegExp H (js ''zzz|cat'') False = Inr (replace_alts H False [js ''zzz'', js ''cat''])"
  unfolding split_bar_zzz_cat[symmetric]
  by (simp add: RegExp_def plain_word_def bar_word_def syntax_chars_def js_def)

lemma replace_alts_zzz_cat:
  "replace_alts H False [js ''zzz'', js ''cat''] (js ''cat sat'') = js ''sat''"
  by (simp add: js_def match_alts_def delim_def is_space_def whitespace_def char_eq_def)

text \<open>
  Claim C9, as the code has it. The match of \<open>removeWords\<close> consumes its
  delimiters. For either setting of the flag and every word without pattern syntax
  characters: wherever the pattern matches, the match is one or more characters of the
  class \<open>[\\s\\.]\<close>, then the word, then exactly one character of the class, and the
  replacement goes on with the text behind all of it. For every corpus whose documents
  pass \<open>isDoc\<close>, every list of words without pattern syntax characters and every
  non-empty word \<open>w\<close> without a character of the class: \<open>removeWords\<close> returns
  the corpus, a text that starts with \<open>w\<close> still starts with \<open>w\<close> afterwards
  and a text that ends with \<open>w\<close> still ends with \<open>w\<close>. And
  \<open>removeWords( [ 'cat' ] )\<close> turns the text \<open>the cat sat\<close> of a document of the
  corpus into \<open>thesat\<close>.
\<close>

theorem removeWords_consumes_delimiters:
  assumes "wf_corpus s c" "isArray words" "list_all plain_word (map ToString (elems words))"
    and "caseInsensitive = None \<or> (\<exists>b. caseInsensitive = Some (Bool b))"
    and "w \<noteq> []" "list_all (\<lambda>ch. \<not> delim H (caseInsensitive = Some (Bool True)) ch) w"
  shows "(\<forall>x t m. match_at H ci x t = Some m \<longrightarrow>
            (\<exists>ds x' dl rest. t = ds @ x' @ dl # rest \<and> ds \<noteq> [] \<and> list_all (delim H ci) ds \<and>
               list_all2 (char_eq H ci) x x' \<and> delim H ci dl \<and> m = length (ds @ x' @ [dl]) \<and>
               replace_all H ci x t = replace_all H ci x rest))
    \<and> (\<exists>s'. removeWords H c words caseInsensitive s = (Inr c, s') \<and>
          (\<forall>d r. get_text (heap s) d = Str (w @ r) \<longrightarrow>
             (\<exists>r'. get_text (heap s') d = Str (w @ r'))) \<and>
          (\<forall>d p. get_text (heap s) d = Str (p @ w) \<longrightarrow>
             (\<exists>p'. get_text (heap s') d = Str (p' @ w))))
    \<and> (\<forall>d \<in> set (documents s c). get_text (heap s) d = Str (js ''the cat sat'') \<longrightarrow>
          get_text (heap (snd (removeWords H c (Arr [Str (js ''cat'')]) None s))) d
            = Str (js ''thesat''))"
proof (intro conjI)
  show "\<forall>x t m. match_at H ci x t = Some m \<longrightarrow>
            (\<exists>ds x' dl rest. t = ds @ x' @ dl # rest \<and> ds \<noteq> [] \<and> list_all (delim H ci) ds \<and>
               list_all2 (char_eq H ci) x x' \<and> delim H ci dl \<and> m = length (ds @ x' @ [dl]) \<and>
               replace_all H ci x t = replace_all H ci x rest)"
  proof (intro allI impI)
    fix x t m assume m: "match_at H ci x t = Some m"
    from match_at_sound[OF m] obtain ds x' dl rest where
      t: "t = ds @ x' @ dl # rest" "ds \<noteq> []" "list_all (delim H ci) ds"
        "list_all2 (char_eq H ci) x x'" "delim H ci dl" "m = length (ds @ x' @ [dl])" by blast
    have "drop m t = rest" using t(1,6) by simp
    then have "replace_all H ci x t = replace_all H ci x rest"
      using replace_all_match[OF m] by simp
    then show "\<exists>ds x' dl rest. t = ds @ x' @ dl # rest \<and> ds \<noteq> [] \<and> list_all (delim H ci) ds \<and>
               list_all2 (char_eq H ci) x x' \<and> delim H ci dl \<and> m = length (ds @ x' @ [dl]) \<and>
               replace_all H ci x t = replace_all H ci x rest"
      using t by blast
  qed
next
  let ?ci = "caseInsensitive = Some (Bool True)"
  let ?r = "rw H ?ci (map ToString (elems words))" and ?c = "\<lambda>v. str_clean (makeString v)"
  let ?h1 = "fold (step ?r) (documents s c) (heap s)"
  let ?h2 = "fold (step ?c) (documents s c) ?h1"
  have eq: "removeWords H c words caseInsensitive s = (Inr c, s\<lparr>heap := ?h2\<rparr>)"
    using removeWords_eq[OF assms(2,4,3) wf_corpus_has_text[OF assms(1)]] .
  have sp: "list_all (\<lambda>c. \<not> is_space c) w" using assms(6) by (rule no_delim_no_space)
  have pre: "\<exists>r'. get_text ?h2 d = Str (w @ r')" if "get_text (heap s) d = Str (w @ r)" for d r
  proof -
    let ?P = "\<lambda>v. \<exists>r. v = Str (w @ r)"
    have 1: "?P (get_text ?h1 d)"
    proof (rule get_text_fold_step_inv[where P = ?P])
      show "?P (get_text (heap s) d)" using that by blast
    next
      fix v assume "?P v"
      then obtain r0 where "v = Str (w @ r0)" by blast
      then show "?P (Str (?r v))" using rw_prefix[OF assms(6), of "map ToString (elems words)" r0] by simp
    qed
    have "?P (get_text ?h2 d)"
    proof (rule get_text_fold_step_inv[where P = ?P])
      show "?P (get_text ?h1 d)" by (rule 1)
    next
      fix v assume "?P v"
      then obtain r0 where "v = Str (w @ r0)" by blast
      then show "?P (Str (?c v))"
        using str_clean_prefix[OF assms(5) sp, of r0] by (simp add: makeString_def)
    qed
    then show ?thesis .
  qed
  have suf: "\<exists>p'. get_text ?h2 d = Str (p' @ w)" if "get_text (heap s) d = Str (p @ w)" for d p
  proof -
    let ?P = "\<lambda>v. \<exists>p. v = Str (p @ w)"
    have 1: "?P (get_text ?h1 d)"
    proof (rule get_text_fold_step_inv[where P = ?P])
      show "?P (get_text (heap s) d)" using that by blast
    next
      fix v assume "?P v"
      then obtain p0 where "v = Str (p0 @ w)" by blast
      then show "?P (Str (?r v))" using rw_suffix[OF assms(6), of "map ToString (elems words)" p0] by simp
    qed
    have "?P (get_text ?h2 d)"
    proof (rule get_text_fold_step_inv[where P = ?P])
      show "?P (get_text ?h1 d)" by (rule 1)
    next
      fix v assume "?P v"
      then obtain p0 where "v = Str (p0 @ w)" by blast
      then show "?P (Str (?c v))"
        using str_clean_suffix[OF assms(5) sp, of p0] by (simp add: makeString_def)
    qed
    then show ?thesis .
  qed
  show "\<exists>s'. removeWords H c words caseInsensitive s = (Inr c, s') \<and>
          (\<forall>d r. get_text (heap s) d = Str (w @ r) \<longrightarrow>
             (\<exists>r'. get_text (heap s') d = Str (w @ r'))) \<and>
          (\<forall>d p. get_text (heap s) d = Str (p @ w) \<longrightarrow>
             (\<exists>p'. get_text (heap s') d = Str (p' @ w)))"
    using eq pre suf by (intro exI[of _ "s\<lparr>heap := ?h2\<rparr>"]) simp
next
  let ?r = "rw H False [js ''cat'']" and ?c = "\<lambda>v. str_clean (makeString v)"
  have eq: "removeWords H c (Arr [Str (js ''cat'')]) None s =
    (Inr c, s\<lparr>heap := fold (step ?c) (documents s c) (fold (step ?r) (documents s c) (heap s))\<rparr>)"
    using removeWords_eq[of "Arr [Str (js ''cat'')]" None s c H] wf_corpus_has_text[OF assms(1)]
    by (simp add: isArray_def elems_def plain_word_def syntax_chars_def js_def)
  have r1: "?r (Str (js ''the cat sat'')) = js ''thesat''"
    by (simp add: rw_def str_of_def ev)
  have r2: "?r (Str (js ''thesat'')) = js ''thesat''"
    by (simp add: rw_def str_of_def ev)
  have c1: "?c (Str (js ''thesat'')) = js ''thesat''"
    by (simp add: makeString_def ev)
  show "\<forall>d \<in> set (documents s c). get_text (heap s) d = Str (js ''the cat sat'') \<longrightarrow>
          get_text (heap (snd (removeWords H c (Arr [Str (js ''cat'')]) None s))) d
            = Str (js ''thesat'')"
    by (auto simp: eq intro!: get_text_fold_step_fix[where f = ?c]
        get_text_fold_step_fix[where f = ?r] r1 r2 c1)
qed

theorem removeWords_consumes_delimiters_witness:
  "\<forall>H. wf_corpus edge_state 0 \<and> isArray (Arr [Str (js ''cat'')])
     \<and> list_all plain_word (map ToString (elems (Arr [Str (js ''cat'')])))
     \<and> list_all (\<lambda>ch. \<not> delim H False ch) (js ''cat'')
     \<and> get_text (heap edge_state) 1 = Str (js ''cat and cat and cat'')
     \<and> get_text (heap edge_state) 3 = Str (js ''the cat sat'')
     \<and> match_at H False (js ''cat'') (js '' cat sat'') = Some 5
     \<and> replace_all H False (js ''cat'') (js '' cat sat'') = js ''sat''
     \<and> (\<exists>ds x' dl rest. js '' cat sat'' = ds @ x' @ dl # rest \<and> ds \<noteq> [] \<and>
            5 = length (ds @ x' @ [dl]))
     \<and> fst (removeWords H 0 (Arr [Str (js ''cat'')]) None edge_state) = Inr 0
     \<and> (\<exists>r'. get_text (heap (snd (removeWords H 0 (Arr [Str (js ''cat'')]) None edge_state))) 1
            = Str (js ''cat'' @ r'))
     \<and> (\<exists>p'. get_text (heap (snd (removeWords H 0 (Arr [Str (js ''cat'')]) None edge_state))) 1
            = Str (p' @ js ''cat''))
     \<and> get_text (heap (snd (removeWords H 0 (Arr [Str (js ''cat'')]) None edge_state))) 3
            = Str (js ''thesat'')"
proof
  fix H
  let ?words = "Arr [Str (js ''cat'')]"
  have a: "isArray ?words" by (simp add: isArray_def)
  have p: "list_all plain_word (map ToString (elems ?words))"
    by (simp add: elems_def plain_word_def syntax_chars_def js_def)
  have n: "(None :: jsval option) = None \<or> (\<exists>b. (None :: jsval option) = Some (Bool b))" by simp
  have w: "js ''cat'' \<noteq> []" by (simp add: js_def)
  have nd: "list_all (\<lambda>ch. \<not> delim H ((None :: jsval option) = Some (Bool True)) ch) (js ''cat'')"
    by (simp add: ev)
  have nd': "list_all (\<lambda>ch. \<not> delim H False ch) (js ''cat'')"
    by (simp add: ev)
  have t1: "get_text (heap edge_state) 1 = Str (js ''cat and cat and cat'')"
    and t3: "get_text (heap edge_state) 3 = Str (js ''the cat sat'')"
    by (simp_all add: edge_state_eq get_text_def deref_def)
  have t1a: "get_text (heap edge_state) 1 = Str (js ''cat'' @ js '' and cat and cat'')"
    and t1b: "get_text (heap edge_state) 1 = Str (js ''cat and cat and '' @ js ''cat'')"
    using t1 by (simp_all add: js_def)
  have d3: "3 \<in> set (documents edge_state 0)"
    by (simp add: edge_state_eq documents_def deref_def)
  have m: "match_at H False (js ''cat'') (js '' cat sat'') = Some 5"
    by (simp add: ev)
  have ra: "replace_all H False (js ''cat'') (js '' cat sat'') = js ''sat''"
    by (simp add: ev)
  note T = removeWords_consumes_delimiters[OF wf_edge_state a p n w nd, of False]
  from T have A: "\<forall>x t m. match_at H False x t = Some m \<longrightarrow>
            (\<exists>ds x' dl rest. t = ds @ x' @ dl # rest \<and> ds \<noteq> [] \<and> list_all (delim H False) ds \<and>
               list_all2 (char_eq H False) x x' \<and> delim H False dl \<and> m = length (ds @ x' @ [dl]) \<and>
               replace_all H False x t = replace_all H False x rest)"
    by (rule conjunct1)
  from A[rule_format, OF m] have A': "\<exists>ds x' dl rest. js '' cat sat'' = ds @ x' @ dl # rest \<and> ds \<noteq> [] \<and>
            5 = length (ds @ x' @ [dl])"
    by (elim exE conjE) (intro exI conjI; assumption)
  from T[THEN conjunct2, THEN conjunct1] obtain s' where
    r: "removeWords H 0 ?words None edge_state = (Inr 0, s')"
    and pre: "\<forall>d r. get_text (heap edge_state) d = Str (js ''cat'' @ r) \<longrightarrow>
             (\<exists>r'. get_text (heap s') d = Str (js ''cat'' @ r'))"
    and suf: "\<forall>d p. get_text (heap edge_state) d = Str (p @ js ''cat'') \<longrightarrow>
             (\<exists>p'. get_text (heap s') d = Str (p' @ js ''cat''))"
    by (elim exE conjE)
  from T[THEN conjunct2, THEN conjunct2] have C: "\<forall>d \<in> set (documents edge_state 0).
          get_text (heap edge_state) d = Str (js ''the cat sat'') \<longrightarrow>
          get_text (heap (snd (removeWords H 0 ?words None edge_state))) d = Str (js ''thesat'')"
    .
  have c3: "get_text (heap (snd (removeWords H 0 ?words None edge_state))) 3 = Str (js ''thesat'')"
    using C[rule_format, OF d3 t3] .
  have b1: "\<exists>r'. get_text (heap s') 1 = Str (js ''cat'' @ r')"
    using pre[rule_format, OF t1a] .
  have b2: "\<exists>p'. get_text (heap s') 1 = Str (p' @ js ''cat'')"
    using suf[rule_format, OF t1b] .
  show "wf_corpus edge_state 0 \<and> isArray (Arr [Str (js ''cat'')])
     \<and> list_all plain_word (map ToString (elems (Arr [Str (js ''cat'')])))
     \<and> list_all (\<lambda>ch. \<not> delim H False ch) (js ''cat'')
     \<and> get_text (heap edge_state) 1 = Str (js ''cat and cat and cat'')
     \<and> get_text (heap edge_state) 3 = Str (js ''the cat sat'')
     \<and> match_at H False (js ''cat'') (js '' cat sat'') = Some 5
     \<and> replace_all H False (js ''cat'') (js '' cat sat'') = js ''sat''
     \<and> (\<exists>ds x' dl rest. js '' cat sat'' = ds @ x' @ dl # rest \<and> ds \<noteq> [] \<and>
            5 = length (ds @ x' @ [dl]))
     \<and> fst (removeWords H 0 (Arr [Str (js ''cat'')]) None edge_state) = Inr 0
     \<and> (\<exists>r'. get_text (heap (snd (removeWords H 0 (Arr [Str (js ''cat'')]) None edge_state))) 1
            = Str (js ''cat'' @ r'))
     \<and> (\<exists>p'. get_text (heap (snd (removeWords H 0 (Arr [Str (js ''cat'')]) None edge_state))) 1
            = Str (p' @ js ''cat''))
     \<and> get_text (heap (snd (removeWords H 0 (Arr [Str (js ''cat'')]) None edge_state))) 3
            = Str (js ''thesat'')"
    using wf_edge_state a p nd' t1 t3 m ra A' b1 b2 c3 by (simp add: r)
qed

text \<open>
  The claim C9 as stated fails for a word with the pattern syntax character \<open>|\<close>.
  \<open>removeWords( [ 'zzz|cat' ] )\<close> builds \<open>/[\\s\\.]+zzz|cat[\\s\\.]/g\<close>, whose
  second alternative wants no delimiter in front of \<open>cat\<close>: the text
  \<open>cat sat\<close> starts with \<open>cat\<close> and becomes \<open>sat\<close>, in a corpus whose
  document passes \<open>isDoc\<close> and for a word list that is an array.
\<close>

theorem removeWords_alternation_counterexample:
  "wf_corpus start_state 0 \<and> isArray (Arr [Str (js ''zzz|cat'')])
   \<and> \<not> list_all plain_word (map ToString (elems (Arr [Str (js ''zzz|cat'')])))
   \<and> js ''cat'' \<noteq> [] \<and> list_all (\<lambda>ch. \<not> delim ascii_host False ch) (js ''cat'')
   \<and> get_text (heap start_state) 1 = Str (js ''cat'' @ js '' sat'')
   \<and> fst (removeWords ascii_host 0 (Arr [Str (js ''zzz|cat'')]) None start_state) = Inr 0
   \<and> get_text (heap (snd (removeWords ascii_host 0 (Arr [Str (js ''zzz|cat'')]) None
        start_state))) 1 = Str (js ''sat'')
   \<and> take (length (js ''cat'')) (js ''sat'') \<noteq> js ''cat''"
proof -
  have wf: "wf_corpus start_state 0"
    by (simp add: start_state_eq wf_corpus_def documents_def deref_def isDoc_def isObject_def
        ref_of_def)
  have a: "isArray (Arr [Str (js ''zzz|cat'')])"
    by (simp add: isArray_def)
  have np: "\<not> list_all plain_word (map ToString (elems (Arr [Str (js ''zzz|cat'')])))"
    by (simp add: elems_def plain_word_def syntax_chars_def js_def)
  have nd: "js ''cat'' \<noteq> []" "list_all (\<lambda>ch. \<not> delim ascii_host False ch) (js ''cat'')"
    "take (length (js ''cat'')) (js ''sat'') \<noteq> js ''cat''"
    by (simp_all add: js_def delim_def is_space_def whitespace_def)
  have t: "get_text (heap start_state) 1 = Str (js ''cat'' @ js '' sat'')"
    by (simp add: start_state_eq get_text_def deref_def js_def)
  have docs: "documents start_state 0 = [1]"
    by (simp add: start_state_eq documents_def deref_def)
  have t': "get_text (heap start_state) 1 = Str (js ''cat sat'')"
    by (simp add: start_state_eq get_text_def deref_def)
  have w: "removeWords_docs ascii_host False (map ToString (elems (Arr [Str (js ''zzz|cat'')])))
             (documents start_state 0) (heap start_state)
           = (None, set_text (heap start_state) 1 (js ''sat''))"
    using t' by (simp add: docs elems_def RegExp_zzz_cat replace_alts_zzz_cat)
  have c: "str_clean (makeString (Str (js ''sat''))) = js ''sat''"
    by (simp add: makeString_def ev)
  have r: "removeWords ascii_host 0 (Arr [Str (js ''zzz|cat'')]) None start_state
           = (Inr 0, start_state\<lparr>heap := step (\<lambda>v. str_clean (makeString v)) 1
                (set_text (heap start_state) 1 (js ''sat''))\<rparr>)"
    using a w by (simp add: removeWords_def clean_eq documents_def deref_def start_state_eq)
  have g: "get_text (step (\<lambda>v. str_clean (makeString v)) 1
             (set_text (heap start_state) 1 (js ''sat''))) 1 = Str (js ''sat'')"
    by (simp add: get_text_step get_text_set_text start_state_eq c)
  show ?thesis
    using wf a np nd t g by (simp add: r)
qed

text \<open>
  Claim C1 at the text \<open>a cat cat b\<close> with the word \<open>cat\<close>. Both occurrences
  have white space on both sides. The code deletes the first together with the spaces
  around it and then finds no delimiter in front of the second: the text becomes
  \<open>acat b\<close>. The original text with each bounded occurrence removed and its white
  space normalized is \<open>a b\<close>.
\<close>

theorem removeWords_joins_neighbours:
  "fst (removeWords H 0 (Arr [Str (js ''cat'')]) None join_state) = Inr 0
   \<and> get_text (heap (snd (removeWords H 0 (Arr [Str (js ''cat'')]) None join_state))) 1
        = Str (js ''acat b'')
   \<and> spec_removeWords H False [js ''cat''] (js ''a cat cat b'') = js ''a b''"
proof -
  have wf: "wf_corpus join_state 0"
    by (simp add: join_state_eq wf_corpus_def documents_def deref_def isDoc_def isObject_def
        ref_of_def)
  have docs: "documents join_state 0 = [1]"
    by (simp add: join_state_eq documents_def deref_def)
  have t: "get_text (heap join_state) 1 = Str (js ''a cat cat b'')"
    by (simp add: join_state_eq get_text_def deref_def)
  let ?r = "rw H False [js ''cat'']" and ?c = "\<lambda>v. str_clean (makeString v)"
  have eq: "removeWords H 0 (Arr [Str (js ''cat'')]) None join_state =
    (Inr 0, join_state\<lparr>heap := fold (step ?c) [1] (fold (step ?r) [1] (heap join_state))\<rparr>)"
    using removeWords_eq[of "Arr [Str (js ''cat'')]" None join_state 0 H]
      wf_corpus_has_text[OF wf]
    by (simp add: isArray_def elems_def plain_word_def syntax_chars_def js_def docs)
  have r1: "?r (Str (js ''a cat cat b'')) = js ''acat b''"
    by (simp add: rw_def str_of_def ev)
  have c1: "?c (Str (js ''acat b'')) = js ''acat b''"
    by (simp add: makeString_def ev)
  have l: "1 < length (heap join_state)" by (simp add: join_state_eq)
  have "get_text (heap (snd (removeWords H 0 (Arr [Str (js ''cat'')]) None join_state))) 1
        = Str (js ''acat b'')"
    using l t by (simp add: eq get_text_step r1 c1)
  moreover have "spec_removeWords H False [js ''cat''] (js ''a cat cat b'') = js ''a b''"
    by (simp add: spec_removeWords_def ev)
  ultimately show ?thesis by (simp add: eq)
qed

end
